theory Spec2Isabelle
  imports Complex_Main "HOL-Library.Sublist" "HOL-Library.AList"
begin

section \<open>Strings and lines\<close>

text \<open>
  Text is modelled as \<^typ>\<open>string\<close>: one \<^typ>\<open>char\<close> per code unit of the JavaScript
  string (code units above 255 are outside the model).  \<open>split_nl s\<close> is
  \<^verbatim>\<open>s.split("\n")\<close>: the pieces between line feeds, always at least one piece.
\<close>

definition nl :: char where
  "nl = CHR 0x0A"

fun split_nl :: "string \<Rightarrow> string list" where
  "split_nl [] = [[]]"
| "split_nl (c # cs) =
     (if c = nl then [] # split_nl cs
      else (case split_nl cs of
              [] \<Rightarrow> [[c]]
            | l # ls \<Rightarrow> (c # l) # ls))"

text \<open>\<open>join_nl ls\<close> is \<^verbatim>\<open>ls.join("\n")\<close>.\<close>

fun join_nl :: "string list \<Rightarrow> string" where
  "join_nl [] = []"
| "join_nl [l] = l"
| "join_nl (l # ls) = l @ nl # join_nl ls"

text \<open>
  The regular expression \<^verbatim>\<open>/\S/\<close> matches a string that holds a code unit outside the
  white space class \<^verbatim>\<open>\s\<close>; below 256 that class is TAB, LF, VT, FF, CR, SPACE and
  NBSP.
\<close>

definition is_space :: "char \<Rightarrow> bool" where
  "is_space c = (c \<in> set [CHR 0x09, CHR 0x0A, CHR 0x0B, CHR 0x0C, CHR 0x0D, CHR 0x20, CHR 0xA0])"

definition has_nonspace :: "string \<Rightarrow> bool" where
  "has_nonspace line = list_ex (\<lambda>c. \<not> is_space c) line"

section \<open>History (\<^verbatim>\<open>initializeHistory\<close>)\<close>

text \<open>
  The loop of \<^verbatim>\<open>initializeHistory\<close>:
  \<^verbatim>\<open>while (rli.history && historyLines.length > 0) {
    var line = historyLines.pop();
    if (line && /\S/.test(line) && ! seenLines[line]) {
      rli.history.push(line); seenLines[line] = true; } }\<close>
  \<open>history\<close> is the array \<^verbatim>\<open>rli.history\<close> (always an array when the loop is reached),
  \<open>seenLines\<close> the keys of the object \<^verbatim>\<open>seenLines\<close>.
\<close>

function history_loop :: "string list \<Rightarrow> string list \<Rightarrow> string list \<Rightarrow> string list" where
  "history_loop historyLines history seenLines =
     (if historyLines = [] then history
      else
        let line = last historyLines; rest = butlast historyLines
        in if line \<noteq> [] \<and> has_nonspace line \<and> line \<notin> set seenLines
           then history_loop rest (history @ [line]) (line # seenLines)
           else history_loop rest history seenLines)"
  by pat_completeness auto
termination
  by (relation "measure (\<lambda>(historyLines, history, seenLines). length historyLines)") auto

declare history_loop.simps [simp del]

text \<open>
  \<open>initializeHistory text h\<close> is the value of \<^verbatim>\<open>rli.history\<close> after the loop, where
  \<open>text\<close> is the content of the history file and \<open>h\<close> the value of \<^verbatim>\<open>rli.history\<close>
  before the call (\<open>None\<close> when it is unset, in which case the code starts from the
  empty array).
\<close>

definition initializeHistory :: "string \<Rightarrow> string list option \<Rightarrow> string list" where
  "initializeHistory text h =
     history_loop (split_nl text) (case h of None \<Rightarrow> [] | Some a \<Rightarrow> a) []"

text \<open>
  The readline interface keeps \<^verbatim>\<open>rli.history\<close> newest first (index 0 is the line
  recalled first), so the recall list from oldest to newest is the array reversed.
\<close>

definition oldest_to_newest :: "string list \<Rightarrow> string list" where
  "oldest_to_newest history = rev history"

text \<open>A line survives the load when it is not blank.\<close>

definition kept_line :: "string \<Rightarrow> bool" where
  "kept_line line = (line \<noteq> [] \<and> has_nonspace line)"

section \<open>JavaScript values\<close>

text \<open>
  The values the server handles: what \<^verbatim>\<open>JSON.parse\<close> returns (null, booleans,
  numbers, strings, arrays, objects), \<^verbatim>\<open>undefined\<close>, and three kinds of host
  object: the pass-through stream made by \<^verbatim>\<open>readJSONFromStream\<close>, the socket, and
  \<^verbatim>\<open>Error\<close> objects (with their message).  An object is the list of its own
  properties in insertion order.
\<close>

datatype jsval =
    JUndefined
  | JNull
  | JBool bool
  | JNum rat
  | JStr string
  | JArr "jsval list"
  | JObj "(string \<times> jsval) list"
  | JStream
  | JSocket
  | JError string

type_synonym obj = "(string \<times> jsval) list"

text \<open>Truthiness, as \<^verbatim>\<open>if (v)\<close>, \<^verbatim>\<open>v && w\<close>, \<^verbatim>\<open>v || w\<close> and \<^verbatim>\<open>v ? a : b\<close> test it.\<close>

fun truthy :: "jsval \<Rightarrow> bool" where
  "truthy JUndefined = False"
| "truthy JNull = False"
| "truthy (JBool b) = b"
| "truthy (JNum n) = (n \<noteq> 0)"
| "truthy (JStr s) = (s \<noteq> [])"
| "truthy (JArr vs) = True"
| "truthy (JObj kvs) = True"
| "truthy JStream = True"
| "truthy JSocket = True"
| "truthy (JError m) = True"

datatype exn = TypeError

text \<open>
  \<open>obj_prop kvs k\<close> is \<^verbatim>\<open>o[k]\<close> on an object; \<open>get_prop v k\<close> is \<^verbatim>\<open>v.k\<close> on any
  value: it throws on \<^verbatim>\<open>null\<close> and \<^verbatim>\<open>undefined\<close>, and the property names this
  program reads (\<^verbatim>\<open>key\<close>, \<^verbatim>\<open>columns\<close>, \<^verbatim>\<open>evaluateAndExit\<close>, \<^verbatim>\<open>command\<close>,
  \<^verbatim>\<open>filename\<close>, \<^verbatim>\<open>output\<close>) are \<^verbatim>\<open>undefined\<close> on every value that is not an
  object with that own property.
\<close>

definition obj_prop :: "obj \<Rightarrow> string \<Rightarrow> jsval" where
  "obj_prop kvs k = (case map_of kvs k of None \<Rightarrow> JUndefined | Some v \<Rightarrow> v)"

fun get_prop :: "jsval \<Rightarrow> string \<Rightarrow> exn + jsval" where
  "get_prop JUndefined k = Inl TypeError"
| "get_prop JNull k = Inl TypeError"
| "get_prop (JObj kvs) k = Inr (obj_prop kvs k)"
| "get_prop v k = Inr JUndefined"

text \<open>
  \<^verbatim>\<open>_.extend(obj, src)\<close> assigns every property of \<open>src\<close>; \<^verbatim>\<open>_.defaults(obj, src)\<close>
  assigns those whose value in \<open>obj\<close> is \<^verbatim>\<open>undefined\<close>.
\<close>

fun extend_obj :: "obj \<Rightarrow> obj \<Rightarrow> obj" where
  "extend_obj obj [] = obj"
| "extend_obj obj ((k, v) # src) = extend_obj (AList.update k v obj) src"

fun defaults :: "obj \<Rightarrow> obj \<Rightarrow> obj" where
  "defaults obj [] = obj"
| "defaults obj ((k, v) # src) =
     defaults (if obj_prop obj k = JUndefined then AList.update k v obj else obj) src"

section \<open>The runtime the server calls\<close>

text \<open>
  \<^verbatim>\<open>JSON.parse\<close>, \<^verbatim>\<open>JSON.stringify\<close> and the string conversion \<^verbatim>\<open>v + ""\<close> belong to
  the JavaScript runtime, not to this program: they are parameters of the model.
  A call of \<^verbatim>\<open>JSON.parse\<close> returns a value, throws a \<^verbatim>\<open>SyntaxError\<close>, or throws
  something else.
\<close>

datatype parse_result = Parsed jsval | SyntaxError | OtherError jsval

record runtime =
  JSON_parse :: "string \<Rightarrow> parse_result"
  JSON_stringify :: "jsval \<Rightarrow> string"
  toString :: "jsval \<Rightarrow> string"

section \<open>Framing (\<^verbatim>\<open>readJSONFromStream\<close>)\<close>

text \<open>
  The state of one call of \<^verbatim>\<open>readJSONFromStream(inputStream, callback)\<close>:
  its variables \<^verbatim>\<open>dataSoFar\<close> and \<^verbatim>\<open>finished\<close>; whether \<^verbatim>\<open>onData\<close>, \<^verbatim>\<open>finish\<close> and
  \<^verbatim>\<open>onClose\<close> are still listeners of \<^verbatim>\<open>inputStream\<close> for "data", "error" and
  "close"; whether \<^verbatim>\<open>inputStream.pipe(outputStream)\<close> forwards the data events;
  the text written into \<^verbatim>\<open>outputStream\<close> so far; and the state \<open>host\<close> that the
  callback acts on.  Two fields only observe: \<open>invocations\<close> lists the arguments
  \<open>(error, json)\<close> of every call of the callback, \<open>detachments\<close> counts how often
  the three \<^verbatim>\<open>removeListener\<close> calls of \<^verbatim>\<open>finish\<close> ran.

  \<^verbatim>\<open>onData\<close> works on the text \<^verbatim>\<open>buffer.toString("utf8")\<close> of a data event and
  \<^verbatim>\<open>outputStream.write\<close> encodes text as UTF-8, while the pipe forwards the bytes
  of the later data events as they are.  The model has one type for both and takes
  the bytes of a chunk and its text to be the same thing.  They are when every
  byte is below 128 (\<open>ascii\<close>): decoding and encoding then change nothing.  What is
  proved about the payload is stated for chunks of which those that \<^verbatim>\<open>onData\<close>
  decodes are such.
\<close>

definition ascii :: "string \<Rightarrow> bool" where
  "ascii bytes = list_all (\<lambda>c. of_char c < (128 :: nat)) bytes"

record 'h reader =
  dataSoFar :: string
  finished :: bool
  on_data :: bool
  on_error :: bool
  on_close :: bool
  piped :: bool
  outputStream :: string
  invocations :: "(jsval \<times> jsval) list"
  detachments :: nat
  host :: 'h

definition readJSONFromStream :: "'h \<Rightarrow> 'h reader" where
  "readJSONFromStream h =
     \<lparr> dataSoFar = [], finished = False, on_data = True, on_error = True, on_close = True,
       piped = False, outputStream = [], invocations = [], detachments = 0, host = h \<rparr>"

definition finish ::
  "(jsval \<Rightarrow> jsval \<Rightarrow> 'h \<Rightarrow> 'h) \<Rightarrow> jsval \<Rightarrow> jsval \<Rightarrow> 'h reader \<Rightarrow> 'h reader" where
  "finish callback error json s =
     (if \<not> finished s
      then s\<lparr> finished := True,
               on_data := False, on_error := False, on_close := False,
               detachments := detachments s + 1,
               invocations := invocations s @ [(error, json)],
               host := callback error json (host s) \<rparr>
      else s)"

text \<open>
  The \<^verbatim>\<open>while\<close> loop of \<^verbatim>\<open>onData\<close> over the remaining \<open>lines\<close> of the chunk.
\<close>

fun onData_loop ::
  "runtime \<Rightarrow> (jsval \<Rightarrow> jsval \<Rightarrow> 'h \<Rightarrow> 'h) \<Rightarrow> string list \<Rightarrow> 'h reader \<Rightarrow> 'h reader" where
  "onData_loop rt callback [] s = s"
| "onData_loop rt callback (l # lines) s =
     (let s1 = s\<lparr> dataSoFar := dataSoFar s @ l \<rparr>
      in case JSON_parse rt (dataSoFar s1) of
           SyntaxError \<Rightarrow> onData_loop rt callback lines s1
         | OtherError e \<Rightarrow> finish callback e JUndefined s1
         | Parsed json \<Rightarrow>
             (let s2 = (if lines \<noteq> []
                        then s1\<lparr> outputStream := outputStream s1 @ join_nl lines \<rparr>
                        else s1);
                  s3 = s2\<lparr> piped := True \<rparr>
              in finish callback JNull json s3))"

definition onData ::
  "runtime \<Rightarrow> (jsval \<Rightarrow> jsval \<Rightarrow> 'h \<Rightarrow> 'h) \<Rightarrow> string \<Rightarrow> 'h reader \<Rightarrow> 'h reader" where
  "onData rt callback buffer s = onData_loop rt callback (split_nl buffer) s"

definition onClose :: "(jsval \<Rightarrow> jsval \<Rightarrow> 'h \<Rightarrow> 'h) \<Rightarrow> 'h reader \<Rightarrow> 'h reader" where
  "onClose callback s = finish callback (JError ''stream unexpectedly closed'') JUndefined s"

text \<open>
  The events of the input stream.  \<open>emit\<close> calls the listeners that were attached
  when the event was emitted, in the order they were attached: for "data" that is
  \<^verbatim>\<open>onData\<close> and then the pipe.
\<close>

datatype stream_event = Data string | StreamError jsval | StreamClose

fun emit ::
  "runtime \<Rightarrow> (jsval \<Rightarrow> jsval \<Rightarrow> 'h \<Rightarrow> 'h) \<Rightarrow> stream_event \<Rightarrow> 'h reader \<Rightarrow> 'h reader" where
  "emit rt callback (Data buffer) s =
     (let s1 = (if on_data s then onData rt callback buffer s else s)
      in if piped s then s1\<lparr> outputStream := outputStream s1 @ buffer \<rparr> else s1)"
| "emit rt callback (StreamError e) s =
     (if on_error s then finish callback e JUndefined s else s)"
| "emit rt callback StreamClose s =
     (if on_close s then onClose callback s else s)"

definition emit_all ::
  "runtime \<Rightarrow> (jsval \<Rightarrow> jsval \<Rightarrow> 'h \<Rightarrow> 'h) \<Rightarrow> stream_event list \<Rightarrow> 'h reader \<Rightarrow> 'h reader" where
  "emit_all rt callback evs s = foldl (\<lambda>s ev. emit rt callback ev s) s evs"

text \<open>
  The invariant of the framing that the proofs use: the callback was called as
  often as the listeners were detached, once when \<^verbatim>\<open>finished\<close> is set and never
  before, and no listener of the framing is attached once \<^verbatim>\<open>finished\<close> is set.
\<close>

definition reader_inv :: "'h reader \<Rightarrow> bool" where
  "reader_inv s \<longleftrightarrow>
     length (invocations s) = detachments s \<and>
     (if finished s then detachments s = 1 \<and> \<not> on_data s \<and> \<not> on_error s \<and> \<not> on_close s
      else detachments s = 0)"

section \<open>Connections (\<^verbatim>\<open>Server.onConnection\<close>)\<close>

definition EXITING_MESSAGE :: string where
  "EXITING_MESSAGE = ''Shell exiting...''"

text \<open>
  What the server does to a socket: \<^verbatim>\<open>write(data)\<close> and \<^verbatim>\<open>end()\<close>;
  \<^verbatim>\<open>socket.end(data)\<close> is the one followed by the other.
\<close>

datatype sock_action = SockWrite string | SockEnd

definition socket_end :: "string \<Rightarrow> sock_action list" where
  "socket_end data = [SockWrite data, SockEnd]"

text \<open>The timer of \<^verbatim>\<open>setTimeout(..., 1000)\<close>: armed with its delay, cleared, or fired.\<close>

datatype timer = Armed nat | Cleared | Fired

text \<open>
  The state of one connection outside the framing: whether the variable
  \<^verbatim>\<open>socket\<close> of \<^verbatim>\<open>onConnection\<close> still holds the socket (the "close" listener sets it
  to null); the timer; what this program wrote on the socket (what the REPL
  writes on its output is not recorded); \<^verbatim>\<open>socket.columns\<close>; what
  \<^verbatim>\<open>console.error\<close> logged; an exception that left a listener uncaught; the options
  \<^verbatim>\<open>moduleRepl.start\<close> was called with; the options object as it is now (the exit
  handlers read its \<^verbatim>\<open>output\<close>); the \<open>(code, file)\<close> arguments of every call of
  \<^verbatim>\<open>_wrappedDefaultEval\<close> made by \<^verbatim>\<open>onConnection\<close>; and whether
  \<^verbatim>\<open>enableInteractiveMode\<close> ran.
\<close>

record conn =
  socket :: bool
  timeout :: timer
  sent :: "sock_action list"
  socket_columns :: "jsval option"
  logged :: "jsval list"
  thrown :: "exn option"
  repl_started :: "obj option"
  session :: "obj option"
  evaluations :: "(jsval \<times> jsval) list"
  interactive :: bool

text \<open>
  Lines 126 to 147: \<^verbatim>\<open>delete options.key\<close>, \<^verbatim>\<open>delete options.columns\<close>, the
  immutable options and the overridable ones.  \<open>replInputSocket\<close> and \<open>sock\<close> are the
  values of the variables of these names.
\<close>

definition negotiate :: "jsval \<Rightarrow> jsval \<Rightarrow> obj \<Rightarrow> obj" where
  "negotiate replInputSocket sock options =
     defaults
       (extend_obj (AList.delete ''columns'' (AList.delete ''key'' options))
          [(''input'', replInputSocket), (''useGlobal'', JBool False), (''output'', sock)])
       [(''prompt'', JStr ''> ''), (''terminal'', JBool True),
        (''useColors'', JBool True), (''ignoreUndefined'', JBool True)]"

text \<open>
  \<^verbatim>\<open>startREPL(options)\<close>: \<^verbatim>\<open>options.output.on("close", ...)\<close> throws when the output
  is null; otherwise the REPL starts with these options.
\<close>

definition startREPL :: "obj \<Rightarrow> conn \<Rightarrow> exn + conn" where
  "startREPL options c =
     (case get_prop (obj_prop options ''output'') ''on'' of
        Inl e \<Rightarrow> Inl e
      | Inr on \<Rightarrow> Inr (c\<lparr> repl_started := Some options, session := Some options \<rparr>))"

definition enableInteractiveMode :: "obj \<Rightarrow> conn \<Rightarrow> conn" where
  "enableInteractiveMode options c = c\<lparr> session := Some options, interactive := True \<rparr>"

text \<open>
  The callback that \<^verbatim>\<open>onConnection\<close> passes to \<^verbatim>\<open>readJSONFromStream\<close>.  \<open>reject\<close>
  is the branch of a key that differs (lines 121 to 124), \<open>accept\<close> what follows it
  (lines 126 to 184) on the object \<open>options\<close>.
\<close>

definition reject :: "conn \<Rightarrow> conn" where
  "reject c = (if socket c then c\<lparr> sent := sent c @ socket_end (EXITING_MESSAGE @ [nl]) \<rparr> else c)"

definition accept :: "obj \<Rightarrow> conn \<Rightarrow> conn" where
  "accept options c =
     (let c1 = (if truthy (obj_prop options ''columns'') \<and> socket c
                then c\<lparr> socket_columns := Some (obj_prop options ''columns'') \<rparr> else c);
          options1 = negotiate JStream (if socket c then JSocket else JNull) options;
          evaluateAndExit = obj_prop options1 ''evaluateAndExit'';
          options2 = (if truthy evaluateAndExit
                      then AList.update ''prompt'' (JStr []) options1 else options1)
      in case startREPL options2 c1 of
           Inl e \<Rightarrow> c1\<lparr> thrown := Some e \<rparr>
         | Inr c2 \<Rightarrow>
             if truthy evaluateAndExit
             then (case get_prop evaluateAndExit ''command'' of
                     Inl e \<Rightarrow> c2\<lparr> thrown := Some e \<rparr>
                   | Inr command \<Rightarrow>
                       (case get_prop evaluateAndExit ''filename'' of
                          Inl e \<Rightarrow> c2\<lparr> thrown := Some e \<rparr>
                        | Inr filename \<Rightarrow>
                            c2\<lparr> evaluations := evaluations c2 @
                                  [(command, if truthy filename then filename
                                             else JStr ''<meteor shell>'')] \<rparr>))
             else enableInteractiveMode (AList.delete ''evaluateAndExit'' options2) c2)"

text \<open>
  The whole callback: \<^verbatim>\<open>clearTimeout\<close>, the error branch, then \<^verbatim>\<open>options.key\<close>.
  On null and undefined reading the property throws; on any other value that is
  not an object it is \<^verbatim>\<open>undefined\<close>, which differs from the key, a string.
\<close>

definition onHandshake :: "string \<Rightarrow> jsval \<Rightarrow> jsval \<Rightarrow> conn \<Rightarrow> conn" where
  "onHandshake key error options c0 =
     (let c = c0\<lparr> timeout := Cleared \<rparr>
      in if truthy error
         then c\<lparr> socket := False, logged := logged c @ [error] \<rparr>
         else (case options of
                 JObj kvs \<Rightarrow>
                   if obj_prop kvs ''key'' \<noteq> JStr key then reject c else accept kvs c
               | _ \<Rightarrow> (case get_prop options ''key'' of
                         Inl e \<Rightarrow> c\<lparr> thrown := Some e \<rparr>
                       | Inr k \<Rightarrow> reject c)))"

text \<open>
  \<^verbatim>\<open>onConnection(socket)\<close>: the timer is armed for 1000 ms and the framing starts.
\<close>

definition onConnection :: "conn reader" where
  "onConnection =
     readJSONFromStream
       \<lparr> socket = True, timeout = Armed 1000, sent = [], socket_columns = None, logged = [],
         thrown = None, repl_started = None, session = None, evaluations = [],
         interactive = False \<rparr>"

text \<open>
  What can happen to a connection: an event of the socket; the timer firing; the
  callback given to \<^verbatim>\<open>_wrappedDefaultEval\<close> being called with \<open>(error, result)\<close>;
  the REPL emitting "exit"; the process emitting "exit".
\<close>

datatype event =
    Sock stream_event
  | TimerFires
  | EvalCompletes jsval jsval
  | ReplExit
  | ProcessExit

text \<open>The callback of \<^verbatim>\<open>setTimeout\<close>; \<^verbatim>\<open>removeAllListeners("data")\<close> also removes the pipe's listener.\<close>

definition onTimeout :: "conn reader \<Rightarrow> conn reader" where
  "onTimeout s =
     (if socket (host s)
      then s\<lparr> on_data := False, piped := False,
               host := (host s)\<lparr> sent := sent (host s) @ socket_end (EXITING_MESSAGE @ [nl]) \<rparr> \<rparr>
      else s)"

text \<open>The callback of the one-shot evaluation (lines 165 to 178).\<close>

definition onEvalResult :: "runtime \<Rightarrow> jsval \<Rightarrow> jsval \<Rightarrow> conn \<Rightarrow> conn" where
  "onEvalResult rt error result c =
     (if socket c
      then let message = (if truthy error
                          then JObj [(''error'', JStr (toString rt error)), (''code'', JNum 1)]
                          else JObj [(''result'', result)])
           in c\<lparr> sent := sent c @ socket_end (JSON_stringify rt message @ [nl]) \<rparr>
      else c)"

text \<open>The two exit listeners of \<^verbatim>\<open>enableInteractiveMode\<close>, on the options object \<open>options\<close>.\<close>

definition onReplExit :: "obj \<Rightarrow> conn \<Rightarrow> conn" where
  "onReplExit options c =
     (if truthy (obj_prop options ''output'')
      then c\<lparr> sent := sent c @ [SockWrite (EXITING_MESSAGE @ [nl]), SockEnd] \<rparr>
      else c)"

definition onProcessExit :: "obj \<Rightarrow> conn \<Rightarrow> conn" where
  "onProcessExit options c =
     (if truthy (obj_prop options ''output'') then c\<lparr> sent := sent c @ [SockEnd] \<rparr> else c)"

text \<open>
  One event.  The socket's "close" listeners run in the order they were attached:
  the one of \<^verbatim>\<open>onConnection\<close> (\<^verbatim>\<open>socket = null\<close>), \<^verbatim>\<open>onClose\<close> of the framing, and
  the one of \<^verbatim>\<open>startREPL\<close> (\<^verbatim>\<open>options.output = null\<close>) when the REPL had started.
  A timer fires only while armed; the evaluation callback exists once
  \<^verbatim>\<open>_wrappedDefaultEval\<close> was called; the exit listeners exist in interactive mode.
\<close>

fun step :: "runtime \<Rightarrow> string \<Rightarrow> event \<Rightarrow> conn reader \<Rightarrow> conn reader" where
  "step rt key (Sock StreamClose) s =
     (let s1 = s\<lparr> host := (host s)\<lparr> socket := False \<rparr> \<rparr>;
          s2 = emit rt (onHandshake key) StreamClose s1
      in case session (host s) of
           None \<Rightarrow> s2
         | Some options \<Rightarrow>
             s2\<lparr> host := (host s2)\<lparr> session :=
                    map_option (AList.update ''output'' JNull) (session (host s2)) \<rparr> \<rparr>)"
| "step rt key (Sock ev) s = emit rt (onHandshake key) ev s"
| "step rt key TimerFires s =
     (case timeout (host s) of
        Armed ms \<Rightarrow> onTimeout (s\<lparr> host := (host s)\<lparr> timeout := Fired \<rparr> \<rparr>)
      | _ \<Rightarrow> s)"
| "step rt key (EvalCompletes error result) s =
     (if evaluations (host s) \<noteq> [] then s\<lparr> host := onEvalResult rt error result (host s) \<rparr>
      else s)"
| "step rt key ReplExit s =
     (case session (host s) of
        Some options \<Rightarrow>
          if interactive (host s) then s\<lparr> host := onReplExit options (host s) \<rparr> else s
      | None \<Rightarrow> s)"
| "step rt key ProcessExit s =
     (case session (host s) of
        Some options \<Rightarrow>
          if interactive (host s) then s\<lparr> host := onProcessExit options (host s) \<rparr> else s
      | None \<Rightarrow> s)"

definition run :: "runtime \<Rightarrow> string \<Rightarrow> event list \<Rightarrow> conn reader \<Rightarrow> conn reader" where
  "run rt key evs s = foldl (\<lambda>s ev. step rt key ev s) s evs"

section \<open>Reachable states of a connection\<close>

text \<open>
  Until the framing finishes, a connection is as \<^verbatim>\<open>onConnection\<close> left it but for
  \<^verbatim>\<open>dataSoFar\<close> (\<open>pristine\<close>), or it is so but for the effects of the timer's
  callback (\<open>timed_out\<close>); once the framing has finished the timer is cleared.
\<close>

definition pristine :: "conn reader \<Rightarrow> bool" where
  "pristine s \<longleftrightarrow> s = onConnection\<lparr> dataSoFar := dataSoFar s \<rparr>"

definition timed_out :: "conn reader \<Rightarrow> bool" where
  "timed_out s \<longleftrightarrow>
     s = onConnection\<lparr> dataSoFar := dataSoFar s, on_data := False,
           host := (host onConnection)\<lparr> timeout := Fired,
                     sent := socket_end (EXITING_MESSAGE @ [nl]) \<rparr> \<rparr>"

definition conn_inv :: "conn reader \<Rightarrow> bool" where
  "conn_inv s \<longleftrightarrow>
     reader_inv s \<and>
     (if finished s then timeout (host s) = Cleared else pristine s \<or> timed_out s)"

text \<open>
  What an event does to the connection once the framing has finished: the socket's
  data and error events no longer reach \<^verbatim>\<open>onConnection\<close>, and the timer is cleared
  (\<open>step_settled\<close> proves it of \<open>step\<close>).  \<open>is_completion\<close> singles out the calls of
  the evaluation callback.
\<close>

fun settled_step :: "runtime \<Rightarrow> event \<Rightarrow> conn \<Rightarrow> conn" where
  "settled_step rt (Sock StreamClose) c =
     c\<lparr> socket := False, session := map_option (AList.update ''output'' JNull) (session c) \<rparr>"
| "settled_step rt (Sock ev) c = c"
| "settled_step rt TimerFires c = c"
| "settled_step rt (EvalCompletes error result) c =
     (if evaluations c \<noteq> [] then onEvalResult rt error result c else c)"
| "settled_step rt ReplExit c =
     (case session c of
        Some options \<Rightarrow> if interactive c then onReplExit options c else c
      | None \<Rightarrow> c)"
| "settled_step rt ProcessExit c =
     (case session c of
        Some options \<Rightarrow> if interactive c then onProcessExit options c else c
      | None \<Rightarrow> c)"

definition settled_run :: "runtime \<Rightarrow> event list \<Rightarrow> conn \<Rightarrow> conn" where
  "settled_run rt evs c = foldl (\<lambda>c ev. settled_step rt ev c) c evs"

definition is_completion :: "event \<Rightarrow> bool" where
  "is_completion ev = (case ev of EvalCompletes error result \<Rightarrow> True | _ \<Rightarrow> False)"

text \<open>
  A connection whose timer has fired before the framing finished: it is
  \<open>timed_out\<close>, or the framing has finished since, and in both cases the banner is
  all that was written and no REPL or evaluation exists.
\<close>

definition lapsed :: "conn reader \<Rightarrow> bool" where
  "lapsed s \<longleftrightarrow>
     (timed_out s \<or> finished s)
     \<and> sent (host s) = socket_end (EXITING_MESSAGE @ [nl])
     \<and> repl_started (host s) = None \<and> evaluations (host s) = [] \<and> \<not> interactive (host s)"

text \<open>
  The events that call \<^verbatim>\<open>finish\<close> whatever the data were: "error", of which
  \<^verbatim>\<open>finish\<close> is itself the listener, and "close", through \<^verbatim>\<open>onClose\<close>.
\<close>

definition ends_framing :: "event \<Rightarrow> bool" where
  "ends_framing ev =
     (case ev of
        Sock (StreamError e) \<Rightarrow> True
      | Sock StreamClose \<Rightarrow> True
      | _ \<Rightarrow> False)"

section \<open>The evaluation pipeline (\<^verbatim>\<open>wrappedDefaultEval\<close>)\<close>

text \<open>
  \<^verbatim>\<open>evalCommandPromise\<close> is one promise, resolved when the module loads and never
  replaced.  \<^verbatim>\<open>wrappedDefaultEval\<close> calls
  \<^verbatim>\<open>evalCommandPromise.then(() => defaultEval(code, context, file, callback)).catch(callback)\<close>:
  since the promise is resolved, \<^verbatim>\<open>then\<close> puts one job on the queue of promise
  jobs, which runs \<^verbatim>\<open>defaultEval\<close>; if that throws, the promise \<^verbatim>\<open>then\<close> returned is
  rejected and a second job calls \<^verbatim>\<open>callback\<close>.  Requests are numbered.
  \<^verbatim>\<open>defaultEval\<close> is the REPL's evaluator, not part of this program; what it does
  for a request is a parameter: it calls \<^verbatim>\<open>callback\<close> before it returns, or it
  suspends (the command yields) and \<^verbatim>\<open>callback\<close> is called in a later turn of the
  event loop, or it throws.  The compilation of \<^verbatim>\<open>code\<close> before the call changes
  the code and no order, and is left out.

  The trace records when the evaluator is invoked for a request (\<open>Begin\<close>) and
  when the completion callback of a request fires (\<open>Done\<close>).
\<close>

datatype behaviour = Completes | Suspends | Throws

datatype job = Invoke nat | Catch nat

datatype mark = Begin nat | Done nat

record pipeline =
  suspended :: "nat list"
  trace :: "mark list"

definition idle :: pipeline where
  "idle = \<lparr> suspended = [], trace = [] \<rparr>"

definition wrappedDefaultEval :: "nat \<Rightarrow> job list \<Rightarrow> job list" where
  "wrappedDefaultEval request jobs = jobs @ [Invoke request]"

text \<open>
  Running the queue of promise jobs until it is empty, as the event loop does at
  the end of each turn.  A job that throws adds a job, so the recursion is on the
  number of jobs still to come, an \<open>Invoke\<close> counting for two.
\<close>

fun weight :: "job \<Rightarrow> nat" where
  "weight (Invoke request) = 2"
| "weight (Catch request) = 1"

function drain :: "(nat \<Rightarrow> behaviour) \<Rightarrow> job list \<Rightarrow> pipeline \<Rightarrow> pipeline" where
  "drain defaultEval [] p = p"
| "drain defaultEval (Invoke request # jobs) p =
     (case defaultEval request of
        Completes \<Rightarrow>
          drain defaultEval jobs (p\<lparr> trace := trace p @ [Begin request, Done request] \<rparr>)
      | Suspends \<Rightarrow>
          drain defaultEval jobs
            (p\<lparr> trace := trace p @ [Begin request], suspended := suspended p @ [request] \<rparr>)
      | Throws \<Rightarrow>
          drain defaultEval (jobs @ [Catch request]) (p\<lparr> trace := trace p @ [Begin request] \<rparr>))"
| "drain defaultEval (Catch request # jobs) p =
     drain defaultEval jobs (p\<lparr> trace := trace p @ [Done request] \<rparr>)"
  by pat_completeness auto
termination
  by (relation "measure (\<lambda>(defaultEval, jobs, p). sum_list (map weight jobs))") auto

text \<open>
  A turn of the event loop is an event that submits requests (data arriving on
  some connection: lines for its REPL, or a handshake with \<^verbatim>\<open>evaluateAndExit\<close>), or
  the resumption of a suspended evaluation, which then calls its callback.  The
  promise jobs run at the end of the turn.
\<close>

datatype turn = Submit "nat list" | Resume nat

fun take_turn :: "(nat \<Rightarrow> behaviour) \<Rightarrow> turn \<Rightarrow> pipeline \<Rightarrow> pipeline" where
  "take_turn defaultEval (Submit requests) p =
     drain defaultEval (foldl (\<lambda>jobs request. wrappedDefaultEval request jobs) [] requests) p"
| "take_turn defaultEval (Resume request) p =
     (if request \<in> set (suspended p)
      then p\<lparr> suspended := removeAll request (suspended p),
               trace := trace p @ [Done request] \<rparr>
      else p)"

definition schedule :: "(nat \<Rightarrow> behaviour) \<Rightarrow> turn list \<Rightarrow> pipeline \<Rightarrow> pipeline" where
  "schedule defaultEval turns p = foldl (\<lambda>p t. take_turn defaultEval t p) p turns"

text \<open>
  A trace is serialized when no evaluation begins while another has begun and
  its callback has not fired: \<open>track\<close> follows the evaluation in progress through
  the trace and fails on a violation.  \<open>begun\<close> lists the requests in the order
  their evaluations began, \<open>submitted\<close> in the order they were submitted,
  \<open>invoked\<close> those a queue of jobs will begin.  A pipeline is \<open>quiet\<close> when nothing
  is suspended and its trace is serialized with no evaluation in progress.
\<close>

fun track :: "nat option \<Rightarrow> mark list \<Rightarrow> nat option option" where
  "track running [] = Some running"
| "track running (Begin request # marks) =
     (if running = None then track (Some request) marks else None)"
| "track running (Done request # marks) =
     (if running = Some request then track None marks else None)"

definition serialized :: "mark list \<Rightarrow> bool" where
  "serialized marks \<longleftrightarrow> track None marks \<noteq> None"

fun begun :: "mark list \<Rightarrow> nat list" where
  "begun [] = []"
| "begun (Begin request # marks) = request # begun marks"
| "begun (Done request # marks) = begun marks"

fun submitted :: "turn list \<Rightarrow> nat list" where
  "submitted [] = []"
| "submitted (Submit requests # turns) = requests @ submitted turns"
| "submitted (Resume request # turns) = submitted turns"

fun invoked :: "job list \<Rightarrow> nat list" where
  "invoked [] = []"
| "invoked (Invoke request # jobs) = request # invoked jobs"
| "invoked (Catch request # jobs) = invoked jobs"

definition quiet :: "pipeline \<Rightarrow> bool" where
  "quiet p \<longleftrightarrow> suspended p = [] \<and> track None (trace p) = Some None"

section \<open>A connection with its REPL and the pipeline\<close>
















section \<open>A sample runtime\<close>

text \<open>
  For the examples, a finite part of the runtime.  \<open>sample_parse\<close> is \<^verbatim>\<open>JSON.parse\<close>
  on the texts listed and answers \<^verbatim>\<open>SyntaxError\<close> on every other text; the examples
  apply it to the listed texts and to proper prefixes of them, and of these
  prefixes only \<^verbatim>\<open>1\<close>, listed itself, is a JSON text, so that on every text they
  parse it agrees with \<^verbatim>\<open>JSON.parse\<close>.  \<open>sample_stringify\<close> is \<^verbatim>\<open>JSON.stringify\<close> on
  the two messages listed, and \<open>sample_toString\<close> the string conversion of an
  \<^verbatim>\<open>Error\<close> with the given message.
\<close>

definition sample_parse :: "string \<Rightarrow> parse_result" where
  \<open>sample_parse text =
     (if text = ''{"key":"abc"}'' then Parsed (JObj [(''key'', JStr ''abc'')])
      else if text = ''{"key":"xyz"}'' then Parsed (JObj [(''key'', JStr ''xyz'')])
      else if text = ''{"key":"abc","columns":80,"terminal":false}''
        then Parsed (JObj [(''key'', JStr ''abc''), (''columns'', JNum 80),
                           (''terminal'', JBool False)])
      else if text = ''{"key":"abc","evaluateAndExit":{"command":"1+1"}}''
        then Parsed (JObj [(''key'', JStr ''abc''),
                           (''evaluateAndExit'', JObj [(''command'', JStr ''1+1'')])])
      else if text = ''null'' then Parsed JNull
      else if text = ''1'' then Parsed (JNum 1)
      else if text = ''12'' then Parsed (JNum 12)
      else SyntaxError)\<close>

definition sample_stringify :: "jsval \<Rightarrow> string" where
  \<open>sample_stringify v =
     (if v = JObj [(''result'', JNum 2)] then ''{"result":2}''
      else if v = JObj [(''error'', JStr ''Error: x''), (''code'', JNum 1)]
        then ''{"error":"Error: x","code":1}''
      else [])\<close>

definition sample_toString :: "jsval \<Rightarrow> string" where
  "sample_toString v = (case v of JError m \<Rightarrow> ''Error: '' @ m | JStr t \<Rightarrow> t | _ \<Rightarrow> [])"

definition sample_runtime :: runtime where
  "sample_runtime =
     \<lparr> JSON_parse = sample_parse, JSON_stringify = sample_stringify,
       toString = sample_toString \<rparr>"

text \<open>A callback that leaves the state alone, for the examples about the framing by itself.\<close>

definition ignore_callback :: "jsval \<Rightarrow> jsval \<Rightarrow> unit \<Rightarrow> unit" where
  "ignore_callback error json u = u"





section \<open>Properties of the history load\<close>

lemma split_nl_nonempty: "split_nl s \<noteq> []"
  by (induction s) (auto split: list.splits)

lemma history_loop_snoc:
  "history_loop (ls @ [l]) h seen =
     (if kept_line l \<and> l \<notin> set seen then history_loop ls (h @ [l]) (l # seen)
      else history_loop ls h seen)"
  by (subst history_loop.simps) (simp add: kept_line_def)

lemma history_loop_Nil: "history_loop [] h seen = h"
  by (subst history_loop.simps) simp

lemma history_loop_remdups:
  "history_loop ls h seen =
     h @ rev (remdups (filter (\<lambda>l. kept_line l \<and> l \<notin> set seen) ls))"
proof (induction ls arbitrary: h seen rule: rev_induct)
  case Nil
  show ?case by (simp add: history_loop_Nil)
next
  case (snoc l ls)
  show ?case
  proof (cases "kept_line l \<and> l \<notin> set seen")
    case True
    have eq: "filter (\<lambda>x. kept_line x \<and> x \<notin> set (l # seen)) ls
            = filter (\<lambda>x. x \<noteq> l) (filter (\<lambda>x. kept_line x \<and> x \<notin> set seen) ls)"
      by (induction ls) auto
    have rd: "remdups (xs @ [l]) = remdups (filter (\<lambda>x. x \<noteq> l) xs) @ [l]" for xs :: "string list"
      by (induction xs) auto
    have "history_loop (ls @ [l]) h seen = history_loop ls (h @ [l]) (l # seen)"
      using True by (simp add: history_loop_snoc)
    also have "\<dots> = (h @ [l]) @
        rev (remdups (filter (\<lambda>x. x \<noteq> l) (filter (\<lambda>x. kept_line x \<and> x \<notin> set seen) ls)))"
      by (simp only: snoc.IH eq)
    also have "\<dots> = h @
        rev (remdups (filter (\<lambda>x. x \<noteq> l) (filter (\<lambda>x. kept_line x \<and> x \<notin> set seen) ls)) @ [l])"
      by simp
    also have "\<dots> = h @ rev (remdups (filter (\<lambda>x. kept_line x \<and> x \<notin> set seen) ls @ [l]))"
      by (simp only: rd)
    also have "\<dots> = h @ rev (remdups (filter (\<lambda>x. kept_line x \<and> x \<notin> set seen) (ls @ [l])))"
      using True by simp
    finally show ?thesis .
  next
    case False
    have "history_loop (ls @ [l]) h seen = history_loop ls h seen"
      using False by (auto simp: history_loop_snoc)
    moreover have "filter (\<lambda>x. kept_line x \<and> x \<notin> set seen) (ls @ [l])
                 = filter (\<lambda>x. kept_line x \<and> x \<notin> set seen) ls"
      using False by auto
    ultimately show ?thesis
      by (simp only: snoc.IH)
  qed
qed

text \<open>
  Claim C3.  Loading the history file whose text is \<open>a\<newline>b\<newline>a\<newline>c\<newline>\<close> into a
  readline interface with no history yet (\<^verbatim>\<open>rli.history\<close> unset or empty) leaves
  \<^verbatim>\<open>rli.history = ["c","a","b"]\<close>, newest first, that is the recall list
  \<open>b, a, c\<close> from oldest to newest.  For every file text the recall list from oldest
  to newest is the list of non-blank lines of the file in file order with every
  duplicated line kept only at its last (most recent) occurrence, which is what
  \<^const>\<open>remdups\<close> computes; in particular it has no duplicates and holds exactly the
  non-blank lines.
\<close>

theorem history_load_dedup:
  "initializeHistory ''a\<newline>b\<newline>a\<newline>c\<newline>'' None = [''c'', ''a'', ''b'']
   \<and> oldest_to_newest (initializeHistory ''a\<newline>b\<newline>a\<newline>c\<newline>'' None) = [''b'', ''a'', ''c'']
   \<and> oldest_to_newest (initializeHistory text None)
         = remdups (filter kept_line (split_nl text))
   \<and> initializeHistory text (Some []) = initializeHistory text None
   \<and> distinct (oldest_to_newest (initializeHistory text None))
   \<and> set (oldest_to_newest (initializeHistory text None))
         = {l. l \<in> set (split_nl text) \<and> kept_line l}"
proof -
  have gen: "oldest_to_newest (initializeHistory t None) = remdups (filter kept_line (split_nl t))"
    for t
    by (simp add: oldest_to_newest_def initializeHistory_def history_loop_remdups)
  have ex: "initializeHistory ''a\<newline>b\<newline>a\<newline>c\<newline>'' None = [''c'', ''a'', ''b'']"
    by (simp add: initializeHistory_def history_loop_remdups nl_def kept_line_def
        has_nonspace_def is_space_def)
  have ex': "oldest_to_newest (initializeHistory ''a\<newline>b\<newline>a\<newline>c\<newline>'' None)
               = [''b'', ''a'', ''c'']"
    by (simp only: ex oldest_to_newest_def) simp
  have same: "initializeHistory text (Some []) = initializeHistory text None"
    by (simp add: initializeHistory_def)
  have d: "distinct (oldest_to_newest (initializeHistory text None))"
    by (simp only: gen distinct_remdups)
  have s: "set (oldest_to_newest (initializeHistory text None))
             = {l. l \<in> set (split_nl text) \<and> kept_line l}"
    by (simp only: gen set_remdups set_filter)
  show ?thesis
    by (intro conjI) (rule ex ex' gen same d s)+
qed

section \<open>Properties of the framing\<close>

lemma split_nl_append: "split_nl (a @ nl # b) = split_nl a @ split_nl b"
  by (induction a) (auto split: list.splits simp: split_nl_nonempty)

lemma concat_split_nl: "concat (split_nl s) = filter (\<lambda>c. c \<noteq> nl) s"
  by (induction s) (auto split: list.splits)

lemma join_nl_push: "join_nl ((c # l) # ls) = c # join_nl (l # ls)"
  by (cases ls) auto

lemma join_split_nl: "join_nl (split_nl s) = s"
  by (induction s) (auto split: list.splits simp: join_nl_push split_nl_nonempty)

lemma split_nl_last_nonempty: "a \<noteq> [] \<Longrightarrow> last a \<noteq> nl \<Longrightarrow> last (split_nl a) \<noteq> []"
  by (induction a) (auto split: list.splits if_splits simp: split_nl_nonempty)

lemma onData_loop_all_fail:
  assumes fail: "\<And>q. strict_prefix q H \<Longrightarrow> JSON_parse rt q = SyntaxError"
    and "strict_prefix (dataSoFar s @ concat ls) H"
  shows "onData_loop rt cb ls s = s\<lparr> dataSoFar := dataSoFar s @ concat ls \<rparr>"
  using assms(2)
proof (induction ls arbitrary: s)
  case Nil
  show ?case by simp
next
  case (Cons l ls)
  have "prefix (dataSoFar s @ l) (dataSoFar s @ concat (l # ls))"
    by simp
  with Cons.prems have "strict_prefix (dataSoFar s @ l) H"
    using prefix_order.le_less_trans by blast
  then have p: "JSON_parse rt (dataSoFar s @ l) = SyntaxError"
    by (rule fail)
  have "strict_prefix (dataSoFar (s\<lparr> dataSoFar := dataSoFar s @ l \<rparr>) @ concat ls) H"
    using Cons.prems by simp
  then have "onData_loop rt cb ls (s\<lparr> dataSoFar := dataSoFar s @ l \<rparr>)
      = s\<lparr> dataSoFar := dataSoFar s @ l \<rparr>\<lparr> dataSoFar := dataSoFar (s\<lparr> dataSoFar := dataSoFar s @ l \<rparr>) @ concat ls \<rparr>"
    by (rule Cons.IH)
  then show ?case
    by (simp add: p)
qed

lemma onData_loop_hit:
  assumes fail: "\<And>q. strict_prefix q H \<Longrightarrow> JSON_parse rt q = SyntaxError"
    and "dataSoFar s @ concat pre @ l = H" and "l \<noteq> []"
    and ok: "JSON_parse rt H = Parsed v"
  shows "onData_loop rt cb (pre @ l # post) s =
           finish cb JNull v
             (s\<lparr> dataSoFar := H,
                 outputStream := outputStream s @ (if post = [] then [] else join_nl post),
                 piped := True \<rparr>)"
  using assms(2)
proof (induction pre arbitrary: s)
  case Nil
  then have "dataSoFar s @ l = H" by simp
  then show ?case
    by (simp add: ok)
next
  case (Cons x pre)
  have "strict_prefix (dataSoFar s @ x) H"
    using Cons.prems \<open>l \<noteq> []\<close> by (auto simp: strict_prefix_def)
  then have p: "JSON_parse rt (dataSoFar s @ x) = SyntaxError"
    by (rule fail)
  have "dataSoFar (s\<lparr> dataSoFar := dataSoFar s @ x \<rparr>) @ concat pre @ l = H"
    using Cons.prems by simp
  from Cons.IH [OF this] show ?case
    by (simp add: p)
qed


lemma emit_all_Nil: "emit_all rt cb [] s = s"
  by (simp add: emit_all_def)

lemma emit_all_Cons: "emit_all rt cb (ev # evs) s = emit_all rt cb evs (emit rt cb ev s)"
  by (simp add: emit_all_def)

lemma emit_all_append: "emit_all rt cb (xs @ ys) s = emit_all rt cb ys (emit_all rt cb xs s)"
  by (simp add: emit_all_def)

lemma emit_Data_before:
  assumes fail: "\<And>q. strict_prefix q H \<Longrightarrow> JSON_parse rt q = SyntaxError"
    and "on_data s" and "\<not> piped s"
    and "strict_prefix (dataSoFar s @ filter (\<lambda>c. c \<noteq> nl) chunk) H"
  shows "emit rt cb (Data chunk) s = s\<lparr> dataSoFar := dataSoFar s @ filter (\<lambda>c. c \<noteq> nl) chunk \<rparr>"
proof -
  have "onData_loop rt cb (split_nl chunk) s = s\<lparr> dataSoFar := dataSoFar s @ concat (split_nl chunk) \<rparr>"
    using fail assms(4) by (intro onData_loop_all_fail [where H = H]) (simp_all add: concat_split_nl)
  then show ?thesis
    using assms(2,3) by (simp add: onData_def concat_split_nl)
qed

lemma emit_all_Data_before:
  assumes fail: "\<And>q. strict_prefix q H \<Longrightarrow> JSON_parse rt q = SyntaxError"
    and "on_data s" and "\<not> piped s"
    and "strict_prefix (dataSoFar s @ filter (\<lambda>c. c \<noteq> nl) (concat chunks)) H"
  shows "emit_all rt cb (map Data chunks) s
           = s\<lparr> dataSoFar := dataSoFar s @ filter (\<lambda>c. c \<noteq> nl) (concat chunks) \<rparr>"
  using assms(2-)
proof (induction chunks arbitrary: s)
  case Nil
  show ?case by (simp add: emit_all_Nil)
next
  case (Cons c chunks)
  let ?s1 = "s\<lparr> dataSoFar := dataSoFar s @ filter (\<lambda>c. c \<noteq> nl) c \<rparr>"
  have "prefix (dataSoFar s @ filter (\<lambda>c. c \<noteq> nl) c)
          (dataSoFar s @ filter (\<lambda>c. c \<noteq> nl) (concat (c # chunks)))"
    by simp
  with Cons.prems(3) have "strict_prefix (dataSoFar s @ filter (\<lambda>c. c \<noteq> nl) c) H"
    using prefix_order.le_less_trans by blast
  then have e: "emit rt cb (Data c) s = ?s1"
    using fail Cons.prems(1,2) by (intro emit_Data_before [where H = H])
  have "emit_all rt cb (map Data chunks) ?s1
          = ?s1\<lparr> dataSoFar := dataSoFar ?s1 @ filter (\<lambda>c. c \<noteq> nl) (concat chunks) \<rparr>"
    using Cons.prems by (intro Cons.IH) simp_all
  then have "emit_all rt cb (map Data chunks) (emit rt cb (Data c) s)
          = s\<lparr> dataSoFar := dataSoFar s @ filter (\<lambda>c. c \<noteq> nl) (concat (c # chunks)) \<rparr>"
    by (simp only: e) simp
  then show ?case
    by (simp only: list.map emit_all_Cons)
qed

lemma emit_Data_hit:
  assumes fail: "\<And>q. strict_prefix q H \<Longrightarrow> JSON_parse rt q = SyntaxError"
    and ok: "JSON_parse rt H = Parsed v"
    and "on_data s" and "\<not> piped s"
    and "a \<noteq> []" and "last a \<noteq> nl"
    and "dataSoFar s @ filter (\<lambda>c. c \<noteq> nl) a = H"
  shows "emit rt cb (Data (a @ nl # b)) s =
           finish cb JNull v
             (s\<lparr> dataSoFar := H, outputStream := outputStream s @ b, piped := True \<rparr>)"
proof -
  let ?ls = "split_nl a"
  have ne: "?ls \<noteq> []" by (rule split_nl_nonempty)
  then have sp: "butlast ?ls @ [last ?ls] = ?ls" by simp
  have l: "last ?ls \<noteq> []"
    using assms(5,6) by (rule split_nl_last_nonempty)
  have "concat (butlast ?ls) @ last ?ls = concat (butlast ?ls @ [last ?ls])" by simp
  also have "\<dots> = filter (\<lambda>c. c \<noteq> nl) a"
    by (simp only: sp concat_split_nl)
  finally have H: "dataSoFar s @ concat (butlast ?ls) @ last ?ls = H"
    using assms(7) by simp
  have "split_nl (a @ nl # b) = (butlast ?ls @ [last ?ls]) @ split_nl b"
    by (simp only: sp split_nl_append)
  then have spl: "split_nl (a @ nl # b) = butlast ?ls @ last ?ls # split_nl b"
    by simp
  have "onData rt cb (a @ nl # b) s =
      finish cb JNull v
        (s\<lparr> dataSoFar := H,
            outputStream := outputStream s @ (if split_nl b = [] then [] else join_nl (split_nl b)),
            piped := True \<rparr>)"
    unfolding onData_def spl by (rule onData_loop_hit [OF fail H l ok])
  then have "onData rt cb (a @ nl # b) s =
      finish cb JNull v (s\<lparr> dataSoFar := H, outputStream := outputStream s @ b, piped := True \<rparr>)"
    by (simp add: split_nl_nonempty join_split_nl)
  then show ?thesis
    using assms(3,4) by simp
qed

lemma emit_all_Data_after:
  assumes "\<not> on_data s" and "piped s"
  shows "emit_all rt cb (map Data chunks) s = s\<lparr> outputStream := outputStream s @ concat chunks \<rparr>"
  using assms
  by (induction chunks arbitrary: s) (simp_all add: emit_all_def)

lemma header_then_payload:
  assumes fail: "\<forall>q. strict_prefix q (filter (\<lambda>c. c \<noteq> nl) (concat before @ a)) \<longrightarrow> JSON_parse rt q = SyntaxError"
    and ok: "JSON_parse rt (filter (\<lambda>c. c \<noteq> nl) (concat before @ a)) = Parsed v"
    and "a \<noteq> []" and "last a \<noteq> nl"
  shows "outputStream (emit_all rt cb (map Data (before @ [a @ nl # b] @ after)) (readJSONFromStream h))
           = b @ concat after
       \<and> invocations (emit_all rt cb (map Data (before @ [a @ nl # b] @ after)) (readJSONFromStream h))
           = [(JNull, v)]
       \<and> host (emit_all rt cb (map Data (before @ [a @ nl # b] @ after)) (readJSONFromStream h))
           = cb JNull v h"
proof -
  let ?H = "filter (\<lambda>c. c \<noteq> nl) (concat before @ a)"
  let ?s0 = "readJSONFromStream h :: 'a reader"
  have fail': "\<And>q. strict_prefix q ?H \<Longrightarrow> JSON_parse rt q = SyntaxError"
    using fail by blast
  have "last a \<in> set a"
    using assms(3) by simp
  then have na: "filter (\<lambda>c. c \<noteq> nl) a \<noteq> []"
    using assms(4) by (auto simp: filter_empty_conv)
  have d0: "dataSoFar ?s0 = []"
    by (simp add: readJSONFromStream_def)
  have sp: "strict_prefix (dataSoFar ?s0 @ filter (\<lambda>c. c \<noteq> nl) (concat before)) ?H"
    unfolding d0 using na by (simp add: strict_prefix_def)
  have s0: "on_data ?s0" "\<not> piped ?s0"
    by (simp_all add: readJSONFromStream_def)
  let ?s1 = "?s0\<lparr> dataSoFar := dataSoFar ?s0 @ filter (\<lambda>c. c \<noteq> nl) (concat before) \<rparr>"
  have 1: "emit_all rt cb (map Data before) ?s0 = ?s1"
    by (rule emit_all_Data_before [OF fail' s0 sp])
  let ?s2 = "finish cb JNull v (?s1\<lparr> dataSoFar := ?H, outputStream := outputStream ?s1 @ b, piped := True \<rparr>)"
  have s1: "on_data ?s1" "\<not> piped ?s1" "dataSoFar ?s1 @ filter (\<lambda>c. c \<noteq> nl) a = ?H"
    by (simp_all add: readJSONFromStream_def)
  have 2: "emit rt cb (Data (a @ nl # b)) ?s1 = ?s2"
    by (rule emit_Data_hit [OF fail' ok s1(1,2) assms(3,4) s1(3)])
  have s2: "\<not> on_data ?s2" "piped ?s2"
    by (simp_all add: finish_def readJSONFromStream_def)
  have 3: "emit_all rt cb (map Data after) ?s2 = ?s2\<lparr> outputStream := outputStream ?s2 @ concat after \<rparr>"
    using s2 by (rule emit_all_Data_after)
  have "emit_all rt cb (map Data (before @ [a @ nl # b] @ after)) ?s0
          = emit_all rt cb (map Data after) (emit rt cb (Data (a @ nl # b)) (emit_all rt cb (map Data before) ?s0))"
    by (simp only: map_append emit_all_append list.map emit_all_Cons emit_all_Nil)
  also have "\<dots> = ?s2\<lparr> outputStream := outputStream ?s2 @ concat after \<rparr>"
    by (simp only: 1 2 3)
  finally have e: "emit_all rt cb (map Data (before @ [a @ nl # b] @ after)) ?s0
      = ?s2\<lparr> outputStream := outputStream ?s2 @ concat after \<rparr>" .
  show ?thesis
    unfolding e by (simp add: finish_def readJSONFromStream_def)
qed


lemma finish_inv: "reader_inv s \<Longrightarrow> reader_inv (finish cb e j s)"
  by (auto simp: reader_inv_def finish_def)

lemma onData_loop_inv: "reader_inv s \<Longrightarrow> reader_inv (onData_loop rt cb ls s)"
proof (induction ls arbitrary: s)
  case Nil
  then show ?case by simp
next
  case (Cons l ls)
  have a: "reader_inv (s\<lparr>dataSoFar := d\<rparr>)" for d
    using Cons.prems by (simp add: reader_inv_def)
  have b: "reader_inv (s\<lparr>dataSoFar := d, piped := True\<rparr>)" for d
    using Cons.prems by (simp add: reader_inv_def)
  have c: "reader_inv (s\<lparr>dataSoFar := d, outputStream := out, piped := True\<rparr>)" for d out
    using Cons.prems by (simp add: reader_inv_def)
  show ?case
    by (auto simp: Let_def a b c finish_inv Cons.IH split: parse_result.splits)
qed

lemma emit_inv: "reader_inv s \<Longrightarrow> reader_inv (emit rt cb ev s)"
proof (cases ev)
  case (Data buffer)
  have o: "reader_inv t \<Longrightarrow> reader_inv (t\<lparr>outputStream := out\<rparr>)" for t :: "'a reader" and out
    by (simp add: reader_inv_def)
  assume "reader_inv s"
  then show ?thesis
    using Data by (auto simp: Let_def onData_def onData_loop_inv o)
next
  case (StreamError e)
  assume "reader_inv s"
  then show ?thesis using StreamError by (simp add: finish_inv)
next
  case StreamClose
  assume "reader_inv s"
  then show ?thesis using StreamClose by (simp add: finish_inv onClose_def)
qed

lemma emit_all_inv: "reader_inv s \<Longrightarrow> reader_inv (emit_all rt cb evs s)"
  unfolding emit_all_def by (induction evs arbitrary: s) (auto simp: emit_inv)

lemma readJSONFromStream_inv: "reader_inv (readJSONFromStream h)"
  by (simp add: reader_inv_def readJSONFromStream_def)

lemma finished_stays:
  assumes "reader_inv s" and "finished s"
  shows "invocations (emit rt cb ev s) = invocations s \<and> finished (emit rt cb ev s)"
  using assms by (cases ev) (auto simp: reader_inv_def Let_def split: if_splits)

lemma finished_stays_all:
  assumes "reader_inv s" and "finished s"
  shows "invocations (emit_all rt cb evs s) = invocations s"
  using assms
proof (induction evs arbitrary: s)
  case Nil
  show ?case by (simp add: emit_all_Nil)
next
  case (Cons ev evs)
  have "reader_inv (emit rt cb ev s)" "finished (emit rt cb ev s)"
    using Cons.prems by (simp_all add: emit_inv finished_stays)
  then have "invocations (emit_all rt cb evs (emit rt cb ev s)) = invocations (emit rt cb ev s)"
    by (rule Cons.IH)
  then show ?case
    using Cons.prems by (simp add: emit_all_Cons finished_stays)
qed

text \<open>
  Claim C8.  Whatever events the input stream emits, in whatever order,
  \<^verbatim>\<open>readJSONFromStream\<close> calls its callback at most once, and it ran the three
  \<^verbatim>\<open>removeListener\<close> calls of \<^verbatim>\<open>finish\<close> exactly as often as it called the callback.
  Once the callback was called, \<^verbatim>\<open>onData\<close>, \<^verbatim>\<open>finish\<close> and \<^verbatim>\<open>onClose\<close> are no longer
  listeners of the stream and no later event calls the callback again.  A stream
  error and a close before a value was obtained each complete the framing with
  that error (a parsed value is covered by \<open>header_then_payload\<close>).
\<close>

theorem callback_invoked_at_most_once:
  "length (invocations (emit_all rt cb evs (readJSONFromStream h))) \<le> 1
   \<and> detachments (emit_all rt cb evs (readJSONFromStream h))
       = length (invocations (emit_all rt cb evs (readJSONFromStream h)))
   \<and> finished (emit_all rt cb evs (readJSONFromStream h))
       = (invocations (emit_all rt cb evs (readJSONFromStream h)) \<noteq> [])
   \<and> (invocations (emit_all rt cb evs (readJSONFromStream h)) \<noteq> [] \<longrightarrow>
        \<not> on_data (emit_all rt cb evs (readJSONFromStream h))
        \<and> \<not> on_error (emit_all rt cb evs (readJSONFromStream h))
        \<and> \<not> on_close (emit_all rt cb evs (readJSONFromStream h))
        \<and> invocations (emit_all rt cb (evs @ later) (readJSONFromStream h))
            = invocations (emit_all rt cb evs (readJSONFromStream h)))
   \<and> invocations (emit rt cb (StreamError e) (readJSONFromStream h)) = [(e, JUndefined)]
   \<and> invocations (emit rt cb StreamClose (readJSONFromStream h))
       = [(JError ''stream unexpectedly closed'', JUndefined)]"
proof -
  let ?s = "emit_all rt cb evs (readJSONFromStream h)"
  have inv: "reader_inv ?s"
    by (intro emit_all_inv readJSONFromStream_inv)
  have 1: "length (invocations ?s) \<le> 1"
    using inv by (auto simp: reader_inv_def split: if_splits)
  have 2: "detachments ?s = length (invocations ?s)"
    using inv by (simp add: reader_inv_def)
  have 3: "finished ?s = (invocations ?s \<noteq> [])"
    using inv by (auto simp: reader_inv_def split: if_splits)
  have 4: "invocations ?s \<noteq> [] \<longrightarrow>
        \<not> on_data ?s \<and> \<not> on_error ?s \<and> \<not> on_close ?s
        \<and> invocations (emit_all rt cb (evs @ later) (readJSONFromStream h)) = invocations ?s"
  proof
    assume "invocations ?s \<noteq> []"
    then have f: "finished ?s" using 3 by simp
    then have "\<not> on_data ?s \<and> \<not> on_error ?s \<and> \<not> on_close ?s"
      using inv by (simp add: reader_inv_def)
    moreover have "invocations (emit_all rt cb later ?s) = invocations ?s"
      using inv f by (rule finished_stays_all)
    ultimately show "\<not> on_data ?s \<and> \<not> on_error ?s \<and> \<not> on_close ?s
        \<and> invocations (emit_all rt cb (evs @ later) (readJSONFromStream h)) = invocations ?s"
      by (simp add: emit_all_append)
  qed
  have 5: "invocations (emit rt cb (StreamError e) (readJSONFromStream h)) = [(e, JUndefined)]"
    by (simp add: readJSONFromStream_def finish_def)
  have 6: "invocations (emit rt cb StreamClose (readJSONFromStream h))
       = [(JError ''stream unexpectedly closed'', JUndefined)]"
    by (simp add: readJSONFromStream_def finish_def onClose_def)
  show ?thesis
    by (intro conjI) (rule 1 2 3 4 5 6)+
qed

theorem callback_invoked_at_most_once_witness:
  \<open>invocations (emit_all sample_runtime ignore_callback
      [Data ''{"key":"abc"}\<newline>'', StreamError (JError ''reset'')] (readJSONFromStream ())) \<noteq> []
   \<and> \<not> on_data (emit_all sample_runtime ignore_callback
      [Data ''{"key":"abc"}\<newline>'', StreamError (JError ''reset'')] (readJSONFromStream ()))
   \<and> invocations (emit_all sample_runtime ignore_callback
      ([Data ''{"key":"abc"}\<newline>'', StreamError (JError ''reset'')] @ [StreamClose]) (readJSONFromStream ()))
     = [(JNull, JObj [(''key'', JStr ''abc'')])]\<close>
proof -
  have a: \<open>invocations (emit_all sample_runtime ignore_callback
      [Data ''{"key":"abc"}\<newline>'', StreamError (JError ''reset'')] (readJSONFromStream ()))
     = [(JNull, JObj [(''key'', JStr ''abc'')])]\<close>
    by (simp add: emit_all_def onData_def nl_def sample_runtime_def sample_parse_def finish_def
      readJSONFromStream_def ignore_callback_def)
  show ?thesis
    using callback_invoked_at_most_once [of sample_runtime ignore_callback
      \<open>[Data ''{"key":"abc"}\<newline>'', StreamError (JError ''reset'')]\<close> "()" "[StreamClose]"]
    by (simp add: a)
qed

lemma sample_header_prefixes:
  \<open>strict_prefix q ''{"key":"abc"}'' \<Longrightarrow> sample_parse q = SyntaxError\<close>
proof -
  assume a: \<open>strict_prefix q ''{"key":"abc"}''\<close>
  then have p: \<open>prefix q ''{"key":"abc"}''\<close> and ne: \<open>q \<noteq> ''{"key":"abc"}''\<close>
    by (auto simp: strict_prefix_def)
  have m: \<open>q \<in> set (prefixes ''{"key":"abc"}'')\<close>
    using p by (simp only: in_set_prefixes)
  have all: \<open>\<forall>t \<in> set (prefixes ''{"key":"abc"}'').
      t = ''{"key":"abc"}'' \<or> sample_parse t = SyntaxError\<close>
    by (simp add: sample_parse_def)
  from m all ne show ?thesis by blast
qed

text \<open>
  Claim C2, as amended.  The input stream is a header, a line feed and a payload,
  and arrives in any number of chunks cut anywhere, except that the chunk with the
  last character of the header also has the line feed after it.  The header, with
  its line feeds removed, is a text that \<^verbatim>\<open>JSON.parse\<close> accepts while it rejects
  every proper prefix of it with a \<^verbatim>\<open>SyntaxError\<close> (so it is of every object).
  The chunks up to the one with that line feed, this one included, are ASCII, so
  that their text is their bytes; the later chunks are any bytes.  Then
  \<^verbatim>\<open>readJSONFromStream\<close> calls its callback exactly once, with no error and the
  value of the header, and the pass-through stream receives exactly the payload:
  what follows that line feed in its chunk, then every later chunk.
\<close>

theorem header_split_across_chunks:
  assumes "concat before @ a = header" and "a \<noteq> []" and "last a \<noteq> nl"
    and "JSON_parse rt (filter (\<lambda>c. c \<noteq> nl) header) = Parsed v"
    and "\<forall>q. strict_prefix q (filter (\<lambda>c. c \<noteq> nl) header) \<longrightarrow> JSON_parse rt q = SyntaxError"
    and "ascii (header @ nl # b)"
    and "chunks = before @ [a @ nl # b] @ after"
    and "payload = b @ concat after"
  shows "concat chunks = header @ nl # payload
       \<and> invocations (emit_all rt callback (map Data chunks) (readJSONFromStream h)) = [(JNull, v)]
       \<and> outputStream (emit_all rt callback (map Data chunks) (readJSONFromStream h)) = payload"
proof -
  have 1: "concat chunks = header @ nl # payload"
    using assms(1,7,8) by auto
  have f: "\<forall>q. strict_prefix q (filter (\<lambda>c. c \<noteq> nl) (concat before @ a)) \<longrightarrow>
               JSON_parse rt q = SyntaxError"
    using assms(1,5) by simp
  have ok: "JSON_parse rt (filter (\<lambda>c. c \<noteq> nl) (concat before @ a)) = Parsed v"
    using assms(1,4) by simp
  from header_then_payload [OF f ok assms(2,3), of callback b after h]
  have "invocations (emit_all rt callback (map Data chunks) (readJSONFromStream h)) = [(JNull, v)]
       \<and> outputStream (emit_all rt callback (map Data chunks) (readJSONFromStream h)) = payload"
    unfolding assms(7,8) by simp
  with 1 show ?thesis by simp
qed

theorem header_split_across_chunks_witness:
  \<open>JSON_parse sample_runtime (filter (\<lambda>c. c \<noteq> nl) ''{"key":"abc"}'')
     = Parsed (JObj [(''key'', JStr ''abc'')])
   \<and> ascii (''{"key":"abc"}'' @ nl # ''foo\<newline>bar'')
   \<and> invocations (emit_all sample_runtime ignore_callback
        (map Data [''{"ke'', ''y":"abc"}\<newline>foo\<newline>bar'', ''\<newline>baz''])
        (readJSONFromStream ())) = [(JNull, JObj [(''key'', JStr ''abc'')])]
   \<and> outputStream (emit_all sample_runtime ignore_callback
        (map Data [''{"ke'', ''y":"abc"}\<newline>foo\<newline>bar'', ''\<newline>baz''])
        (readJSONFromStream ())) = ''foo\<newline>bar\<newline>baz''\<close>
proof -
  have fl: \<open>filter (\<lambda>c. c \<noteq> nl) ''{"key":"abc"}'' = ''{"key":"abc"}''\<close>
    by (simp add: nl_def)
  have c: \<open>concat [''{"ke''] @ ''y":"abc"}'' = ''{"key":"abc"}''\<close>
    by simp
  have n: \<open>''y":"abc"}'' \<noteq> []\<close> and l: \<open>last ''y":"abc"}'' \<noteq> nl\<close>
    by (simp_all add: nl_def)
  have ok: \<open>JSON_parse sample_runtime (filter (\<lambda>c. c \<noteq> nl) ''{"key":"abc"}'')
     = Parsed (JObj [(''key'', JStr ''abc'')])\<close>
    unfolding fl by (simp add: sample_runtime_def sample_parse_def)
  have fail: \<open>\<forall>q. strict_prefix q (filter (\<lambda>c. c \<noteq> nl) ''{"key":"abc"}'') \<longrightarrow>
      JSON_parse sample_runtime q = SyntaxError\<close>
    unfolding fl using sample_header_prefixes by (simp add: sample_runtime_def)
  have asc: \<open>ascii (''{"key":"abc"}'' @ nl # ''foo\<newline>bar'')\<close>
    by (simp add: ascii_def nl_def)
  have ch: \<open>[''{"ke'', ''y":"abc"}\<newline>foo\<newline>bar'', ''\<newline>baz'']
      = [''{"ke''] @ [''y":"abc"}'' @ nl # ''foo\<newline>bar''] @ [''\<newline>baz'']\<close>
    by (simp add: nl_def)
  have pl: \<open>''foo\<newline>bar\<newline>baz'' = ''foo\<newline>bar'' @ concat [''\<newline>baz'']\<close>
    by simp
  show ?thesis
    using header_split_across_chunks [OF c n l ok fail asc ch pl, of ignore_callback "()"] ok asc
    by (simp add: nl_def)
qed

text \<open>
  Claim C2 as stated fails for two chunkings.  The document \<^verbatim>\<open>12\<close> cut after its
  first digit is read as the header \<^verbatim>\<open>1\<close>, and \<open>2\<newline>foo\<close> goes to the pass-through
  stream, where in one chunk the header is \<^verbatim>\<open>12\<close> and \<^verbatim>\<open>foo\<close> goes through: the text
  is parsed after every fragment.  And when the chunk ends with the header
  \<^verbatim>\<open>{"key":"abc"}\<close> and the next one begins with the line feed, the pass-through
  stream receives \<open>\<newline>foo\<newline>bar\<close>, with the line feed, where in one chunk it
  receives \<open>foo\<newline>bar\<close>.
\<close>

theorem chunking_changes_the_result:
  \<open>invocations (emit_all sample_runtime ignore_callback
       (map Data [''1'', ''2\<newline>foo'']) (readJSONFromStream ())) = [(JNull, JNum 1)]
   \<and> outputStream (emit_all sample_runtime ignore_callback
       (map Data [''1'', ''2\<newline>foo'']) (readJSONFromStream ())) = ''2\<newline>foo''
   \<and> invocations (emit_all sample_runtime ignore_callback
       (map Data [''12\<newline>foo'']) (readJSONFromStream ())) = [(JNull, JNum 12)]
   \<and> outputStream (emit_all sample_runtime ignore_callback
       (map Data [''12\<newline>foo'']) (readJSONFromStream ())) = ''foo''
   \<and> invocations (emit_all sample_runtime ignore_callback
       (map Data [''{"key":"abc"}'', ''\<newline>foo\<newline>bar'']) (readJSONFromStream ()))
     = [(JNull, JObj [(''key'', JStr ''abc'')])]
   \<and> outputStream (emit_all sample_runtime ignore_callback
       (map Data [''{"key":"abc"}'', ''\<newline>foo\<newline>bar'']) (readJSONFromStream ()))
     = ''\<newline>foo\<newline>bar''
   \<and> outputStream (emit_all sample_runtime ignore_callback
       (map Data [''{"key":"abc"}\<newline>foo\<newline>bar'']) (readJSONFromStream ()))
     = ''foo\<newline>bar''\<close>
  by (simp add: emit_all_def onData_def nl_def sample_runtime_def sample_parse_def finish_def
      readJSONFromStream_def)

section \<open>Properties of the negotiated options\<close>

lemma obj_prop_update: "obj_prop (AList.update k v obj) k' = (if k' = k then v else obj_prop obj k')"
  by (simp add: obj_prop_def update_conv')

lemma obj_prop_delete: "obj_prop (AList.delete k obj) k' = (if k' = k then JUndefined else obj_prop obj k')"
  by (simp add: obj_prop_def delete_conv')

lemma map_of_extend_obj:
  "map_of (extend_obj obj src) k = (case map_of (rev src) k of None \<Rightarrow> map_of obj k | Some v \<Rightarrow> Some v)"
  by (induction obj src rule: extend_obj.induct) (auto simp: update_conv' split: option.splits)

lemma obj_prop_extend_obj:
  "obj_prop (extend_obj obj src) k = (case map_of (rev src) k of None \<Rightarrow> obj_prop obj k | Some v \<Rightarrow> v)"
  by (simp add: obj_prop_def map_of_extend_obj split: option.splits)

lemma map_of_defaults_absent:
  "k \<notin> fst ` set src \<Longrightarrow> map_of (defaults obj src) k = map_of obj k"
  by (induction obj src rule: defaults.induct) (auto simp: update_conv')

lemma obj_prop_defaults:
  "obj_prop (defaults obj src) k =
     (if obj_prop obj k = JUndefined
      then (case find (\<lambda>(k', v). k' = k \<and> v \<noteq> JUndefined) src of
              None \<Rightarrow> JUndefined | Some (k', v) \<Rightarrow> v)
      else obj_prop obj k)"
proof (induction src arbitrary: obj)
  case Nil
  show ?case by simp
next
  case (Cons kv src)
  obtain k0 v0 where kv: "kv = (k0, v0)" by (cases kv)
  show ?case
    unfolding kv by (simp add: Cons.IH obj_prop_update)
qed

lemma negotiate_key: "map_of (negotiate i sock options) ''key'' = None"
  unfolding negotiate_def
  by (subst map_of_defaults_absent) (simp_all add: map_of_extend_obj delete_conv' del: extend_obj.simps)

lemma negotiate_columns: "map_of (negotiate i sock options) ''columns'' = None"
  unfolding negotiate_def
  by (subst map_of_defaults_absent) (simp_all add: map_of_extend_obj delete_conv' del: extend_obj.simps)

lemma negotiate_host_fields:
  "obj_prop (negotiate i sock options) ''input'' = i"
  "obj_prop (negotiate i sock options) ''output'' = sock"
  "obj_prop (negotiate i sock options) ''useGlobal'' = JBool False"
  unfolding negotiate_def obj_prop_def
  by (subst map_of_defaults_absent; simp add: map_of_extend_obj del: extend_obj.simps)+

lemma negotiate_other:
  "k \<notin> {''key'', ''columns'', ''input'', ''output'', ''useGlobal'', ''prompt'', ''terminal'',
      ''useColors'', ''ignoreUndefined''} \<Longrightarrow>
   obj_prop (negotiate i sock options) k = obj_prop options k"
  unfolding negotiate_def obj_prop_def
  by (subst map_of_defaults_absent; simp add: map_of_extend_obj delete_conv' del: extend_obj.simps)

lemma negotiate_defaults:
  "obj_prop (negotiate i sock options) ''prompt''
     = (if obj_prop options ''prompt'' = JUndefined then JStr ''> '' else obj_prop options ''prompt'')"
  "obj_prop (negotiate i sock options) ''terminal''
     = (if obj_prop options ''terminal'' = JUndefined then JBool True else obj_prop options ''terminal'')"
  "obj_prop (negotiate i sock options) ''useColors''
     = (if obj_prop options ''useColors'' = JUndefined then JBool True else obj_prop options ''useColors'')"
  "obj_prop (negotiate i sock options) ''ignoreUndefined''
     = (if obj_prop options ''ignoreUndefined'' = JUndefined then JBool True
        else obj_prop options ''ignoreUndefined'')"
  unfolding negotiate_def
  by (simp_all add: obj_prop_defaults obj_prop_extend_obj obj_prop_delete
      del: extend_obj.simps defaults.simps)


section \<open>Properties of a connection\<close>

lemma onData_loop_cases:
  assumes "\<not> finished s"
  shows "(\<exists>d. onData_loop rt cb ls s = s\<lparr> dataSoFar := d \<rparr>)
       \<or> (finished (onData_loop rt cb ls s)
          \<and> (\<exists>e j. invocations (onData_loop rt cb ls s) = invocations s @ [(e, j)]
                 \<and> host (onData_loop rt cb ls s) = cb e j (host s)))"
  using assms
proof (induction ls arbitrary: s)
  case Nil
  have "onData_loop rt cb [] s = s\<lparr> dataSoFar := dataSoFar s \<rparr>" by simp
  then show ?case by blast
next
  case (Cons l ls)
  let ?s1 = "s\<lparr> dataSoFar := dataSoFar s @ l \<rparr>"
  show ?case
  proof (cases "JSON_parse rt (dataSoFar s @ l)")
    case (Parsed json)
    then show ?thesis
      using Cons.prems by (simp add: finish_def Let_def)
  next
    case SyntaxError
    have "\<not> finished ?s1" using Cons.prems by simp
    from Cons.IH [OF this] show ?thesis
      using SyntaxError by auto
  next
    case (OtherError e)
    then show ?thesis
      using Cons.prems by (simp add: finish_def)
  qed
qed

lemma emit_cases:
  assumes "\<not> finished s" and "\<not> piped s"
  shows "(\<exists>d. emit rt cb ev s = s\<lparr> dataSoFar := d \<rparr>)
       \<or> (finished (emit rt cb ev s)
          \<and> (\<exists>e j. invocations (emit rt cb ev s) = invocations s @ [(e, j)]
                 \<and> host (emit rt cb ev s) = cb e j (host s)))"
proof (cases ev)
  case (Data buffer)
  show ?thesis
  proof (cases "on_data s")
    case True
    then show ?thesis
      using Data assms onData_loop_cases [OF assms(1), of rt cb "split_nl buffer"]
      by (simp add: onData_def)
  next
    case False
    have "emit rt cb ev s = s\<lparr> dataSoFar := dataSoFar s \<rparr>"
      using False Data assms by simp
    then show ?thesis by blast
  qed
next
  case (StreamError e)
  show ?thesis
  proof (cases "on_error s")
    case True
    then show ?thesis using StreamError assms by (simp add: finish_def)
  next
    case False
    have "emit rt cb ev s = s\<lparr> dataSoFar := dataSoFar s \<rparr>"
      using False StreamError by simp
    then show ?thesis by blast
  qed
next
  case StreamClose
  show ?thesis
  proof (cases "on_close s")
    case True
    then show ?thesis using StreamClose assms by (simp add: finish_def onClose_def)
  next
    case False
    have "emit rt cb ev s = s\<lparr> dataSoFar := dataSoFar s \<rparr>"
      using False StreamClose by simp
    then show ?thesis by blast
  qed
qed

lemma onHandshake_timeout: "timeout (onHandshake key e j c) = Cleared"
  by (auto simp: onHandshake_def Let_def reject_def accept_def startREPL_def
      enableInteractiveMode_def split: jsval.splits sum.splits)


lemma onConnection_inv: "conn_inv onConnection"
  by (simp add: conn_inv_def pristine_def reader_inv_def onConnection_def readJSONFromStream_def)

lemma unfinished_facts:
  assumes "pristine s \<or> timed_out s"
  shows "\<not> finished s" "\<not> piped s" "on_error s" "on_close s" "invocations s = []"
    "session (host s) = None" "evaluations (host s) = []" "repl_started (host s) = None"
    "\<not> interactive (host s)" "thrown (host s) = None"
proof -
  from assms have "s = onConnection\<lparr> dataSoFar := dataSoFar s \<rparr>
      \<or> s = onConnection\<lparr> dataSoFar := dataSoFar s, on_data := False,
           host := (host onConnection)\<lparr> timeout := Fired,
                     sent := socket_end (EXITING_MESSAGE @ [nl]) \<rparr> \<rparr>"
    by (simp add: pristine_def timed_out_def)
  then have "(\<not> finished s \<and> \<not> piped s \<and> on_error s \<and> on_close s \<and> invocations s = [])
     \<and> (session (host s) = None \<and> evaluations (host s) = [] \<and> repl_started (host s) = None
     \<and> \<not> interactive (host s) \<and> thrown (host s) = None)"
  proof
    assume a: "s = onConnection\<lparr> dataSoFar := dataSoFar s \<rparr>"
    show ?thesis
      by (subst a, simp add: onConnection_def readJSONFromStream_def)+
  next
    assume a: "s = onConnection\<lparr> dataSoFar := dataSoFar s, on_data := False,
           host := (host onConnection)\<lparr> timeout := Fired,
                     sent := socket_end (EXITING_MESSAGE @ [nl]) \<rparr> \<rparr>"
    show ?thesis
      by (subst a, simp add: onConnection_def readJSONFromStream_def)+
  qed
  then show "\<not> finished s" "\<not> piped s" "on_error s" "on_close s" "invocations s = []"
    "session (host s) = None" "evaluations (host s) = []" "repl_started (host s) = None"
    "\<not> interactive (host s)" "thrown (host s) = None"
    by simp_all
qed


lemma reader_inv_host: "reader_inv (s\<lparr> host := h \<rparr>) = reader_inv s"
  by (simp add: reader_inv_def)

lemma step_reader_inv: "reader_inv s \<Longrightarrow> reader_inv (step rt key ev s)"
proof (cases ev)
  case (Sock sev)
  assume r: "reader_inv s"
  show ?thesis
  proof (cases sev)
    case (Data b)
    then show ?thesis using Sock r by (simp only: step.simps emit_inv)
  next
    case (StreamError e)
    then show ?thesis using Sock r by (simp only: step.simps emit_inv)
  next
    case StreamClose
    then show ?thesis
      using Sock r
      by (auto simp: Let_def reader_inv_host finish_inv onClose_def split: option.splits)
  qed
next
  case TimerFires
  assume "reader_inv s"
  then show ?thesis
    using TimerFires by (auto simp: reader_inv_def onTimeout_def split: timer.splits)
next
  case (EvalCompletes e r)
  assume "reader_inv s"
  then show ?thesis using EvalCompletes by (simp add: reader_inv_host)
next
  case ReplExit
  assume "reader_inv s"
  then show ?thesis using ReplExit by (simp add: reader_inv_host split: option.splits)
next
  case ProcessExit
  assume "reader_inv s"
  then show ?thesis using ProcessExit by (simp add: reader_inv_host split: option.splits)
qed

text \<open>After the framing has finished, an event of the socket only reaches the pipe.\<close>

lemma step_Sock_finished:
  assumes "reader_inv s" and "finished s"
  shows "step rt key (Sock (Data b)) s
           = (if piped s then s\<lparr> outputStream := outputStream s @ b \<rparr> else s)"
    and "step rt key (Sock (StreamError e)) s = s"
    and "step rt key (Sock StreamClose) s
           = s\<lparr> host := (host s)\<lparr> socket := False,
                   session := map_option (AList.update ''output'' JNull) (session (host s)) \<rparr> \<rparr>"
proof -
  have off: "\<not> on_data s" "\<not> on_error s" "\<not> on_close s"
    using assms by (simp_all add: reader_inv_def)
  show "step rt key (Sock (Data b)) s
           = (if piped s then s\<lparr> outputStream := outputStream s @ b \<rparr> else s)"
    using off by simp
  show "step rt key (Sock (StreamError e)) s = s"
    using off by simp
  show "step rt key (Sock StreamClose) s
           = s\<lparr> host := (host s)\<lparr> socket := False,
                   session := map_option (AList.update ''output'' JNull) (session (host s)) \<rparr> \<rparr>"
    using off by (simp add: Let_def split: option.splits)
qed

lemma step_finished:
  assumes "reader_inv s" and "finished s"
  shows "finished (step rt key ev s)"
proof (cases ev)
  case (Sock sev)
  then show ?thesis
    using assms by (cases sev) (simp_all only: step_Sock_finished, simp_all)
next
  case TimerFires
  then show ?thesis using assms by (simp add: onTimeout_def split: timer.splits)
next
  case (EvalCompletes e r)
  then show ?thesis using assms by simp
next
  case ReplExit
  then show ?thesis using assms by (simp split: option.splits)
next
  case ProcessExit
  then show ?thesis using assms by (simp split: option.splits)
qed

lemma step_finished_Cleared:
  assumes "reader_inv s" and "finished s" and "timeout (host s) = Cleared"
  shows "timeout (host (step rt key ev s)) = Cleared"
proof (cases ev)
  case (Sock sev)
  then show ?thesis
    using assms by (cases sev) (simp_all only: step_Sock_finished, simp_all)
next
  case TimerFires
  then show ?thesis using assms by simp
next
  case (EvalCompletes e r)
  then show ?thesis using assms by (simp add: onEvalResult_def Let_def)
next
  case ReplExit
  then show ?thesis using assms by (simp add: onReplExit_def split: option.splits)
next
  case ProcessExit
  then show ?thesis using assms by (simp add: onProcessExit_def split: option.splits)
qed


lemma pristine_iff: "pristine s \<longleftrightarrow> (\<exists>d. s = onConnection\<lparr> dataSoFar := d \<rparr>)"
proof
  assume "pristine s"
  then show "\<exists>d. s = onConnection\<lparr> dataSoFar := d \<rparr>"
    unfolding pristine_def by (rule exI)
next
  assume "\<exists>d. s = onConnection\<lparr> dataSoFar := d \<rparr>"
  then obtain d where "s = onConnection\<lparr> dataSoFar := d \<rparr>" ..
  then show "pristine s"
    by (simp add: pristine_def)
qed

lemma timed_out_iff:
  "timed_out s \<longleftrightarrow>
     (\<exists>d. s = onConnection\<lparr> dataSoFar := d, on_data := False,
           host := (host onConnection)\<lparr> timeout := Fired,
                     sent := socket_end (EXITING_MESSAGE @ [nl]) \<rparr> \<rparr>)"
proof
  assume "timed_out s"
  then show "\<exists>d. s = onConnection\<lparr> dataSoFar := d, on_data := False,
           host := (host onConnection)\<lparr> timeout := Fired,
                     sent := socket_end (EXITING_MESSAGE @ [nl]) \<rparr> \<rparr>"
    unfolding timed_out_def by (rule exI)
next
  assume "\<exists>d. s = onConnection\<lparr> dataSoFar := d, on_data := False,
           host := (host onConnection)\<lparr> timeout := Fired,
                     sent := socket_end (EXITING_MESSAGE @ [nl]) \<rparr> \<rparr>"
  then obtain d where "s = onConnection\<lparr> dataSoFar := d, on_data := False,
           host := (host onConnection)\<lparr> timeout := Fired,
                     sent := socket_end (EXITING_MESSAGE @ [nl]) \<rparr> \<rparr>" ..
  then show "timed_out s"
    by (simp add: timed_out_def)
qed

lemma unfinished_dataSoFar:
  "pristine s \<Longrightarrow> pristine (s\<lparr> dataSoFar := d \<rparr>)"
  "timed_out s \<Longrightarrow> timed_out (s\<lparr> dataSoFar := d \<rparr>)"
proof -
  assume "pristine s"
  then obtain d0 where "s = onConnection\<lparr> dataSoFar := d0 \<rparr>"
    by (auto simp: pristine_iff)
  then have "s\<lparr> dataSoFar := d \<rparr> = onConnection\<lparr> dataSoFar := d \<rparr>"
    by simp
  then show "pristine (s\<lparr> dataSoFar := d \<rparr>)"
    unfolding pristine_iff by (rule exI)
next
  assume "timed_out s"
  then obtain d0 where "s = onConnection\<lparr> dataSoFar := d0, on_data := False,
           host := (host onConnection)\<lparr> timeout := Fired,
                     sent := socket_end (EXITING_MESSAGE @ [nl]) \<rparr> \<rparr>"
    by (auto simp: timed_out_iff)
  then have "s\<lparr> dataSoFar := d \<rparr> = onConnection\<lparr> dataSoFar := d, on_data := False,
           host := (host onConnection)\<lparr> timeout := Fired,
                     sent := socket_end (EXITING_MESSAGE @ [nl]) \<rparr> \<rparr>"
    by simp
  then show "timed_out (s\<lparr> dataSoFar := d \<rparr>)"
    unfolding timed_out_iff by (rule exI)
qed

lemma pristine_facts:
  assumes "pristine s"
  shows "on_data s" "timeout (host s) = Armed 1000" "socket (host s)" "sent (host s) = []"
    "host s = host onConnection"
  using assms by (auto simp: pristine_iff onConnection_def readJSONFromStream_def)

lemma timed_out_facts:
  assumes "timed_out s"
  shows "\<not> on_data s" "timeout (host s) = Fired" "socket (host s)"
    "sent (host s) = socket_end (EXITING_MESSAGE @ [nl])"
  using assms by (auto simp: timed_out_iff onConnection_def readJSONFromStream_def)

lemma step_TimerFires_pristine:
  assumes "pristine s"
  shows "timed_out (step rt key TimerFires s)"
  using assms
  by (auto simp: pristine_iff timed_out_iff onConnection_def readJSONFromStream_def onTimeout_def)

lemma step_unfinished:
  assumes "pristine s \<or> timed_out s"
  shows "(pristine (step rt key ev s) \<or> timed_out (step rt key ev s))
       \<or> (finished (step rt key ev s) \<and> timeout (host (step rt key ev s)) = Cleared)"
proof (cases ev)
  case (Sock sev)
  note u = unfinished_facts [OF assms]
  show ?thesis
  proof (cases "sev = StreamClose")
    case True
    have "finished (step rt key ev s) \<and> timeout (host (step rt key ev s)) = Cleared"
      using Sock True u
      by (simp add: Let_def onClose_def finish_def onHandshake_timeout)
    then show ?thesis ..
  next
    case False
    then have st: "step rt key ev s = emit rt (onHandshake key) sev s"
      using Sock by (cases sev) simp_all
    from emit_cases [OF u(1,2), of rt "onHandshake key" sev]
    show ?thesis
    proof
      assume "\<exists>d. emit rt (onHandshake key) sev s = s\<lparr> dataSoFar := d \<rparr>"
      then obtain d where "emit rt (onHandshake key) sev s = s\<lparr> dataSoFar := d \<rparr>" ..
      then show ?thesis
        using assms unfinished_dataSoFar [of s d] by (auto simp only: st)
    next
      assume "finished (emit rt (onHandshake key) sev s) \<and>
        (\<exists>e j. invocations (emit rt (onHandshake key) sev s) = invocations s @ [(e, j)] \<and>
               host (emit rt (onHandshake key) sev s) = onHandshake key e j (host s))"
      then show ?thesis
        by (auto simp only: st onHandshake_timeout)
    qed
  qed
next
  case TimerFires
  from assms show ?thesis
  proof
    assume "pristine s"
    then show ?thesis
      using TimerFires step_TimerFires_pristine by blast
  next
    assume t: "timed_out s"
    then have "step rt key ev s = s"
      using TimerFires timed_out_facts(2) [OF t] by simp
    then show ?thesis using t by simp
  qed
next
  case (EvalCompletes e r)
  then have "step rt key ev s = s"
    using unfinished_facts(7) [OF assms] by simp
  then show ?thesis using assms by simp
next
  case ReplExit
  then have "step rt key ev s = s"
    using unfinished_facts(6) [OF assms] by simp
  then show ?thesis using assms by simp
next
  case ProcessExit
  then have "step rt key ev s = s"
    using unfinished_facts(6) [OF assms] by simp
  then show ?thesis using assms by simp
qed

lemma step_inv: "conn_inv s \<Longrightarrow> conn_inv (step rt key ev s)"
proof -
  assume inv: "conn_inv s"
  then have r: "reader_inv (step rt key ev s)"
    by (simp add: conn_inv_def step_reader_inv)
  show ?thesis
  proof (cases "finished s")
    case True
    then have "finished (step rt key ev s)" "timeout (host (step rt key ev s)) = Cleared"
      using inv by (simp_all add: conn_inv_def step_finished step_finished_Cleared)
    then show ?thesis using r by (simp add: conn_inv_def)
  next
    case False
    then have "pristine s \<or> timed_out s"
      using inv by (simp add: conn_inv_def)
    from step_unfinished [OF this, of rt key ev] show ?thesis
      using r unfinished_facts(1) by (auto simp: conn_inv_def)
  qed
qed

lemma run_Nil: "run rt key [] s = s"
  by (simp add: run_def)

lemma run_Cons: "run rt key (ev # evs) s = run rt key evs (step rt key ev s)"
  by (simp add: run_def)

lemma run_append: "run rt key (xs @ ys) s = run rt key ys (run rt key xs s)"
  by (simp add: run_def)

lemma run_inv: "conn_inv s \<Longrightarrow> conn_inv (run rt key evs s)"
  by (induction evs arbitrary: s) (simp_all add: run_Nil run_Cons step_inv)


lemma reachable_inv: "conn_inv (run rt key evs onConnection)"
  by (intro run_inv onConnection_inv)

lemma listening_pristine:
  assumes "conn_inv s" and "on_data s"
  shows "pristine s"
proof -
  have "\<not> finished s"
    using assms by (auto simp: conn_inv_def reader_inv_def)
  then have "pristine s \<or> timed_out s"
    using assms(1) by (simp add: conn_inv_def)
  then show ?thesis
    using assms(2) timed_out_facts(1) by blast
qed

lemma handshake_completes:
  assumes "conn_inv s" and "on_data s"
    and "invocations (step rt key (Sock (Data chunk)) s) = [(e, j)]"
  shows "host (step rt key (Sock (Data chunk)) s) = onHandshake key e j (host onConnection)"
    and "finished (step rt key (Sock (Data chunk)) s)"
proof -
  have p: "pristine s" using assms(1,2) by (rule listening_pristine)
  then have u: "\<not> finished s" "\<not> piped s" "invocations s = []"
    using unfinished_facts [of s] by simp_all
  have st: "step rt key (Sock (Data chunk)) s = emit rt (onHandshake key) (Data chunk) s"
    by simp
  from emit_cases [OF u(1,2), of rt "onHandshake key" "Data chunk"]
  have "finished (emit rt (onHandshake key) (Data chunk) s)
      \<and> host (emit rt (onHandshake key) (Data chunk) s) = onHandshake key e j (host s)"
  proof
    assume "\<exists>d. emit rt (onHandshake key) (Data chunk) s = s\<lparr> dataSoFar := d \<rparr>"
    then obtain d where "emit rt (onHandshake key) (Data chunk) s = s\<lparr> dataSoFar := d \<rparr>" ..
    then have "invocations (step rt key (Sock (Data chunk)) s) = []"
      using u(3) by (simp only: st) simp
    then show ?thesis using assms(3) by simp
  next
    assume a: "finished (emit rt (onHandshake key) (Data chunk) s) \<and>
      (\<exists>e j. invocations (emit rt (onHandshake key) (Data chunk) s) = invocations s @ [(e, j)] \<and>
             host (emit rt (onHandshake key) (Data chunk) s) = onHandshake key e j (host s))"
    then obtain e' j' where
      i: "invocations (emit rt (onHandshake key) (Data chunk) s) = invocations s @ [(e', j')]"
      and h: "host (emit rt (onHandshake key) (Data chunk) s) = onHandshake key e' j' (host s)"
      by blast
    have "(e', j') = (e, j)"
      using i assms(3) u(3) by (simp only: st) simp
    then show ?thesis using a h by simp
  qed
  then show "host (step rt key (Sock (Data chunk)) s) = onHandshake key e j (host onConnection)"
    and "finished (step rt key (Sock (Data chunk)) s)"
    using pristine_facts(5) [OF p] by (simp_all only: st)
qed

lemma host_onConnection:
  "host onConnection =
     \<lparr> socket = True, timeout = Armed 1000, sent = [], socket_columns = None, logged = [],
       thrown = None, repl_started = None, session = None, evaluations = [],
       interactive = False \<rparr>"
  by (simp add: onConnection_def readJSONFromStream_def)

lemma onHandshake_reject:
  assumes "get_prop options ''key'' = Inr k" and "k \<noteq> JStr key" and "socket c"
  shows "onHandshake key JNull options c
           = c\<lparr> timeout := Cleared, sent := sent c @ socket_end (EXITING_MESSAGE @ [nl]) \<rparr>"
  using assms by (cases options) (simp_all add: onHandshake_def reject_def)

lemma onHandshake_accept:
  assumes "get_prop options ''key'' = Inr (JStr key)"
  shows "\<exists>kvs. options = JObj kvs \<and> obj_prop kvs ''key'' = JStr key
           \<and> onHandshake key JNull options c = accept kvs (c\<lparr> timeout := Cleared \<rparr>)"
  using assms by (cases options) (simp_all add: onHandshake_def)

lemma truthy_get_prop: "truthy v \<Longrightarrow> \<exists>x. get_prop v k = Inr x"
  by (cases v) simp_all

lemma startREPL_socket:
  assumes "obj_prop options ''output'' = JSocket"
  shows "startREPL options c = Inr (c\<lparr> repl_started := Some options, session := Some options \<rparr>)"
  using assms by (simp add: startREPL_def)

lemma negotiate_evaluateAndExit:
  "obj_prop (negotiate i sock kvs) ''evaluateAndExit'' = obj_prop kvs ''evaluateAndExit''"
  by (rule negotiate_other) simp

lemma accept_oneshot:
  assumes "socket c" and "truthy (obj_prop kvs ''evaluateAndExit'')"
    and "get_prop (obj_prop kvs ''evaluateAndExit'') ''command'' = Inr command"
    and "get_prop (obj_prop kvs ''evaluateAndExit'') ''filename'' = Inr filename"
  shows "accept kvs c =
     c\<lparr> socket_columns := (if truthy (obj_prop kvs ''columns'')
                            then Some (obj_prop kvs ''columns'') else socket_columns c),
         repl_started := Some (AList.update ''prompt'' (JStr []) (negotiate JStream JSocket kvs)),
         session := Some (AList.update ''prompt'' (JStr []) (negotiate JStream JSocket kvs)),
         evaluations := evaluations c @
           [(command, if truthy filename then filename else JStr ''<meteor shell>'')] \<rparr>"
proof -
  have "obj_prop (AList.update ''prompt'' (JStr []) (negotiate JStream JSocket kvs)) ''output'' = JSocket"
    by (simp add: obj_prop_update negotiate_host_fields)
  note sr = startREPL_socket [OF this]
  show ?thesis
    using assms by (simp add: accept_def negotiate_evaluateAndExit sr Let_def)
qed

lemma accept_interactive:
  assumes "socket c" and "\<not> truthy (obj_prop kvs ''evaluateAndExit'')"
  shows "accept kvs c =
     c\<lparr> socket_columns := (if truthy (obj_prop kvs ''columns'')
                            then Some (obj_prop kvs ''columns'') else socket_columns c),
         repl_started := Some (negotiate JStream JSocket kvs),
         session := Some (AList.delete ''evaluateAndExit'' (negotiate JStream JSocket kvs)),
         interactive := True \<rparr>"
proof -
  have "obj_prop (negotiate JStream JSocket kvs) ''output'' = JSocket"
    by (simp add: negotiate_host_fields)
  note sr = startREPL_socket [OF this]
  show ?thesis
    using assms by (simp add: accept_def negotiate_evaluateAndExit sr Let_def enableInteractiveMode_def)
qed


lemma step_settled:
  assumes "conn_inv s" and "finished s"
  shows "host (step rt key ev s) = settled_step rt ev (host s)"
proof -
  have r: "reader_inv s" and t: "timeout (host s) = Cleared"
    using assms by (simp_all add: conn_inv_def)
  show ?thesis
  proof (cases ev)
    case (Sock sev)
    then show ?thesis
      using r assms(2) by (cases sev) (simp_all only: step_Sock_finished, simp_all)
  next
    case TimerFires
    then show ?thesis using t by simp
  next
    case (EvalCompletes e r)
    then show ?thesis by simp
  next
    case ReplExit
    then show ?thesis by (simp split: option.splits)
  next
    case ProcessExit
    then show ?thesis by (simp split: option.splits)
  qed
qed

lemma run_settled:
  assumes "conn_inv s" and "finished s"
  shows "host (run rt key evs s) = settled_run rt evs (host s)"
  using assms
proof (induction evs arbitrary: s)
  case Nil
  show ?case by (simp add: run_Nil settled_run_def)
next
  case (Cons ev evs)
  have 1: "conn_inv (step rt key ev s)"
    using Cons.prems(1) by (rule step_inv)
  have 2: "finished (step rt key ev s)"
    using Cons.prems by (simp add: step_finished conn_inv_def)
  have "host (run rt key evs (step rt key ev s)) = settled_run rt evs (host (step rt key ev s))"
    using 1 2 by (rule Cons.IH)
  then show ?case
    using Cons.prems by (simp add: run_Cons step_settled settled_run_def)
qed

lemma run_finished:
  assumes "conn_inv s" and "finished s"
  shows "finished (run rt key evs s)"
  using assms
proof (induction evs arbitrary: s)
  case Nil
  then show ?case by (simp add: run_Nil)
next
  case (Cons ev evs)
  have 1: "conn_inv (step rt key ev s)"
    using Cons.prems(1) by (rule step_inv)
  have 2: "finished (step rt key ev s)"
    using Cons.prems by (simp add: step_finished conn_inv_def)
  show ?case
    using Cons.IH [OF 1 2] by (simp add: run_Cons)
qed

lemma settled_run_Nil: "settled_run rt [] c = c"
  by (simp add: settled_run_def)

lemma settled_run_Cons: "settled_run rt (ev # evs) c = settled_run rt evs (settled_step rt ev c)"
  by (simp add: settled_run_def)

lemma settled_run_snoc: "settled_run rt (evs @ [ev]) c = settled_step rt ev (settled_run rt evs c)"
  by (simp add: settled_run_def)



lemma settled_step_fixed:
  "repl_started (settled_step rt ev c) = repl_started c"
  "evaluations (settled_step rt ev c) = evaluations c"
  "interactive (settled_step rt ev c) = interactive c"
  "thrown (settled_step rt ev c) = thrown c"
  "session (settled_step rt ev c) = None \<longleftrightarrow> session c = None"
proof (induction rt ev c rule: settled_step.induct)
qed (simp_all add: onEvalResult_def onReplExit_def onProcessExit_def Let_def split: option.splits)

lemma settled_run_fixed:
  "repl_started (settled_run rt evs c) = repl_started c"
  "evaluations (settled_run rt evs c) = evaluations c"
  "interactive (settled_run rt evs c) = interactive c"
  "thrown (settled_run rt evs c) = thrown c"
  "session (settled_run rt evs c) = None \<longleftrightarrow> session c = None"
proof (induction evs arbitrary: c)
qed (simp_all add: settled_run_Nil settled_run_Cons settled_step_fixed)

lemma settled_step_sent_quiet:
  assumes "\<not> interactive c" and "evaluations c = [] \<or> \<not> is_completion ev"
  shows "sent (settled_step rt ev c) = sent c"
  using assms
proof (induction rt ev c rule: settled_step.induct)
qed (simp_all add: is_completion_def split: option.splits)

lemma settled_run_sent_quiet:
  assumes "\<not> interactive c" and "evaluations c = [] \<or> \<not> list_ex is_completion evs"
  shows "sent (settled_run rt evs c) = sent c"
  using assms
proof (induction evs arbitrary: c)
  case Nil
  show ?case by (simp add: settled_run_Nil)
next
  case (Cons ev evs)
  have q: "evaluations c = [] \<or> \<not> is_completion ev"
    using Cons.prems(2) by auto
  have 1: "sent (settled_step rt ev c) = sent c"
    using Cons.prems(1) q by (rule settled_step_sent_quiet)
  have i: "\<not> interactive (settled_step rt ev c)"
    using Cons.prems(1) by (simp add: settled_step_fixed)
  have e: "evaluations (settled_step rt ev c) = [] \<or> \<not> list_ex is_completion evs"
    using Cons.prems(2) by (auto simp: settled_step_fixed)
  have "sent (settled_run rt evs (settled_step rt ev c)) = sent (settled_step rt ev c)"
    using i e by (rule Cons.IH)
  then show ?case
    by (simp add: settled_run_Cons 1)
qed

lemma settled_step_socket:
  assumes "ev \<noteq> Sock StreamClose"
  shows "socket (settled_step rt ev c) = socket c"
proof (cases ev)
  case (Sock sev)
  then show ?thesis using assms by (cases sev) simp_all
next
  case TimerFires
  then show ?thesis by simp
next
  case (EvalCompletes e r)
  then show ?thesis by (simp add: onEvalResult_def Let_def)
next
  case ReplExit
  then show ?thesis by (simp add: onReplExit_def split: option.splits)
next
  case ProcessExit
  then show ?thesis by (simp add: onProcessExit_def split: option.splits)
qed

lemma settled_run_socket:
  assumes "Sock StreamClose \<notin> set evs"
  shows "socket (settled_run rt evs c) = socket c"
  using assms
proof (induction evs arbitrary: c)
  case Nil
  show ?case by (simp add: settled_run_Nil)
next
  case (Cons ev evs)
  have "ev \<noteq> Sock StreamClose" using Cons.prems by auto
  then have 1: "socket (settled_step rt ev c) = socket c"
    by (rule settled_step_socket)
  have "Sock StreamClose \<notin> set evs" using Cons.prems by simp
  then have "socket (settled_run rt evs (settled_step rt ev c)) = socket (settled_step rt ev c)"
    by (rule Cons.IH)
  then show ?case
    by (simp add: settled_run_Cons 1)
qed


section \<open>The key check\<close>

lemma banner: "socket_end (EXITING_MESSAGE @ [nl]) = [SockWrite ''Shell exiting...\<newline>'', SockEnd]"
  by (simp add: socket_end_def EXITING_MESSAGE_def nl_def)

lemma rejected_forever:
  assumes "conn_inv s" and "finished s" and "\<not> interactive (host s)" and "evaluations (host s) = []"
  shows "sent (host (run rt key later s)) = sent (host s)"
    and "repl_started (host (run rt key later s)) = repl_started (host s)"
    and "evaluations (host (run rt key later s)) = []"
proof -
  have h: "host (run rt key later s) = settled_run rt later (host s)"
    using assms(1,2) by (rule run_settled)
  show "sent (host (run rt key later s)) = sent (host s)"
    unfolding h using assms(3,4) by (intro settled_run_sent_quiet) simp_all
  show "repl_started (host (run rt key later s)) = repl_started (host s)"
    unfolding h by (rule settled_run_fixed)
  show "evaluations (host (run rt key later s)) = []"
    unfolding h using assms(4) by (simp add: settled_run_fixed)
qed

lemma sample_reject:
  \<open>step sample_runtime ''abc'' (Sock (Data ''{"key":"xyz"}\<newline>'')) (run sample_runtime ''abc'' [] onConnection)
     = \<lparr> dataSoFar = ''{"key":"xyz"}'', finished = True, on_data = False, on_error = False,
         on_close = False, piped = True, outputStream = [],
         invocations = [(JNull, JObj [(''key'', JStr ''xyz'')])], detachments = 1,
         host = \<lparr> socket = True, timeout = Cleared,
                  sent = [SockWrite ''Shell exiting...\<newline>'', SockEnd],
                  socket_columns = None, logged = [], thrown = None, repl_started = None,
                  session = None, evaluations = [], interactive = False \<rparr> \<rparr>\<close>
  by (simp add: run_def onConnection_def readJSONFromStream_def onData_def nl_def
      sample_runtime_def sample_parse_def finish_def onHandshake_def reject_def socket_end_def
      EXITING_MESSAGE_def obj_prop_def)


lemma sample_accept:
  \<open>step sample_runtime ''abc'' (Sock (Data ''{"key":"abc"}\<newline>'')) (run sample_runtime ''abc'' [] onConnection)
     = \<lparr> dataSoFar = ''{"key":"abc"}'', finished = True, on_data = False, on_error = False,
         on_close = False, piped = True, outputStream = [],
         invocations = [(JNull, JObj [(''key'', JStr ''abc'')])], detachments = 1,
         host = \<lparr> socket = True, timeout = Cleared, sent = [],
                  socket_columns = None, logged = [], thrown = None,
                  repl_started = Some [(''input'', JStream), (''useGlobal'', JBool False),
                    (''output'', JSocket), (''prompt'', JStr ''> ''), (''terminal'', JBool True),
                    (''useColors'', JBool True), (''ignoreUndefined'', JBool True)],
                  session = Some [(''input'', JStream), (''useGlobal'', JBool False),
                    (''output'', JSocket), (''prompt'', JStr ''> ''), (''terminal'', JBool True),
                    (''useColors'', JBool True), (''ignoreUndefined'', JBool True)],
                  evaluations = [], interactive = True \<rparr> \<rparr>\<close>
  by (simp add: run_def onConnection_def readJSONFromStream_def onData_def nl_def
      sample_runtime_def sample_parse_def finish_def onHandshake_def accept_def negotiate_def
      startREPL_def enableInteractiveMode_def obj_prop_def Let_def)

text \<open>
  The key check on a handshake value whose \<^verbatim>\<open>key\<close> property can be read.  Take any
  connection, after any events, on which the framing still listens, and a data
  event that completes the handshake with the JSON value \<open>options\<close> whose \<^verbatim>\<open>key\<close>
  property can be read and is \<open>k\<close>.  If \<open>k\<close> is not
  strictly equal to the server's key, the server writes \<^verbatim>\<open>Shell exiting...\<close> and a
  line feed and ends the socket, and whatever happens later nothing more is
  written, no REPL is started and no evaluation is requested.  If \<open>k\<close> is the
  server's key, the REPL is started (session mode), nothing was written and
  nothing was thrown.
\<close>

theorem handshake_key_check:
  assumes "s = run rt key evs onConnection" and "on_data s"
    and "s' = step rt key (Sock (Data chunk)) s"
    and "invocations s' = [(JNull, options)]"
    and "get_prop options ''key'' = Inr k"
  shows "(k \<noteq> JStr key \<longrightarrow>
            sent (host s') = [SockWrite ''Shell exiting...\<newline>'', SockEnd]
          \<and> (\<forall>later.
                sent (host (run rt key later s')) = [SockWrite ''Shell exiting...\<newline>'', SockEnd]
              \<and> repl_started (host (run rt key later s')) = None
              \<and> evaluations (host (run rt key later s')) = []))
       \<and> (k = JStr key \<longrightarrow>
            repl_started (host s') \<noteq> None \<and> sent (host s') = [] \<and> thrown (host s') = None)"
proof -
  have inv: "conn_inv s"
    unfolding assms(1) by (rule reachable_inv)
  have inv': "conn_inv s'"
    unfolding assms(3) using inv by (rule step_inv)
  have i: "invocations (step rt key (Sock (Data chunk)) s) = [(JNull, options)]"
    using assms(3,4) by simp
  have h: "host s' = onHandshake key JNull options (host onConnection)"
    and f: "finished s'"
    unfolding assms(3) using handshake_completes [OF inv assms(2) i] by simp_all
  have rej: "k \<noteq> JStr key \<longrightarrow>
            sent (host s') = [SockWrite ''Shell exiting...\<newline>'', SockEnd]
          \<and> (\<forall>later.
                sent (host (run rt key later s')) = [SockWrite ''Shell exiting...\<newline>'', SockEnd]
              \<and> repl_started (host (run rt key later s')) = None
              \<and> evaluations (host (run rt key later s')) = [])"
  proof
    assume ne: "k \<noteq> JStr key"
    have "socket (host onConnection)" by (simp add: host_onConnection)
    from onHandshake_reject [OF assms(5) ne this]
    have hs: "host s' = (host onConnection)\<lparr> timeout := Cleared,
        sent := sent (host onConnection) @ socket_end (EXITING_MESSAGE @ [nl]) \<rparr>"
      using h by simp
    have 1: "sent (host s') = [SockWrite ''Shell exiting...\<newline>'', SockEnd]"
      and 2: "\<not> interactive (host s')" and 3: "evaluations (host s') = []"
      and 4: "repl_started (host s') = None"
      unfolding hs by (simp_all add: host_onConnection banner)
    show "sent (host s') = [SockWrite ''Shell exiting...\<newline>'', SockEnd]
          \<and> (\<forall>later.
                sent (host (run rt key later s')) = [SockWrite ''Shell exiting...\<newline>'', SockEnd]
              \<and> repl_started (host (run rt key later s')) = None
              \<and> evaluations (host (run rt key later s')) = [])"
      using rejected_forever [OF inv' f 2 3] 1 4 by simp
  qed
  have acc: "k = JStr key \<longrightarrow>
            repl_started (host s') \<noteq> None \<and> sent (host s') = [] \<and> thrown (host s') = None"
  proof
    assume "k = JStr key"
    then have "get_prop options ''key'' = Inr (JStr key)"
      using assms(5) by simp
    from onHandshake_accept [OF this, of "host onConnection"]
    obtain kvs where hs: "host s' = accept kvs ((host onConnection)\<lparr> timeout := Cleared \<rparr>)"
      using h by auto
    let ?c = "(host onConnection)\<lparr> timeout := Cleared \<rparr>"
    have sc: "socket ?c" by (simp add: host_onConnection)
    show "repl_started (host s') \<noteq> None \<and> sent (host s') = [] \<and> thrown (host s') = None"
    proof (cases "truthy (obj_prop kvs ''evaluateAndExit'')")
      case True
      obtain command where c: "get_prop (obj_prop kvs ''evaluateAndExit'') ''command'' = Inr command"
        using truthy_get_prop [OF True] by blast
      obtain filename where fn: "get_prop (obj_prop kvs ''evaluateAndExit'') ''filename'' = Inr filename"
        using truthy_get_prop [OF True] by blast
      show ?thesis
        unfolding hs accept_oneshot [OF sc True c fn] by (simp add: host_onConnection)
    next
      case False
      show ?thesis
        unfolding hs accept_interactive [OF sc False] by (simp add: host_onConnection)
    qed
  qed
  from rej acc show ?thesis by (rule conjI)
qed

theorem handshake_key_check_witness:
  \<open>on_data (run sample_runtime ''abc'' [] onConnection)
   \<and> invocations (step sample_runtime ''abc'' (Sock (Data ''{"key":"xyz"}\<newline>''))
        (run sample_runtime ''abc'' [] onConnection)) = [(JNull, JObj [(''key'', JStr ''xyz'')])]
   \<and> get_prop (JObj [(''key'', JStr ''xyz'')]) ''key'' = Inr (JStr ''xyz'')
   \<and> sent (host (step sample_runtime ''abc'' (Sock (Data ''{"key":"xyz"}\<newline>''))
        (run sample_runtime ''abc'' [] onConnection))) = [SockWrite ''Shell exiting...\<newline>'', SockEnd]
   \<and> evaluations (host (run sample_runtime ''abc'' [Sock (Data ''1+1\<newline>''), ReplExit]
        (step sample_runtime ''abc'' (Sock (Data ''{"key":"xyz"}\<newline>''))
          (run sample_runtime ''abc'' [] onConnection)))) = []
   \<and> invocations (step sample_runtime ''abc'' (Sock (Data ''{"key":"abc"}\<newline>''))
        (run sample_runtime ''abc'' [] onConnection)) = [(JNull, JObj [(''key'', JStr ''abc'')])]
   \<and> repl_started (host (step sample_runtime ''abc'' (Sock (Data ''{"key":"abc"}\<newline>''))
        (run sample_runtime ''abc'' [] onConnection))) \<noteq> None\<close>
proof -
  have l: "on_data (run sample_runtime ''abc'' [] onConnection)"
    by (simp add: run_def onConnection_def readJSONFromStream_def)
  have i1: \<open>invocations (step sample_runtime ''abc'' (Sock (Data ''{"key":"xyz"}\<newline>''))
        (run sample_runtime ''abc'' [] onConnection)) = [(JNull, JObj [(''key'', JStr ''xyz'')])]\<close>
    by (simp only: sample_reject) simp
  have g1: "get_prop (JObj [(''key'', JStr ''xyz'')]) ''key'' = Inr (JStr ''xyz'')"
    by (simp add: obj_prop_def)
  have i2: \<open>invocations (step sample_runtime ''abc'' (Sock (Data ''{"key":"abc"}\<newline>''))
        (run sample_runtime ''abc'' [] onConnection)) = [(JNull, JObj [(''key'', JStr ''abc'')])]\<close>
    by (simp only: sample_accept) simp
  have g2: "get_prop (JObj [(''key'', JStr ''abc'')]) ''key'' = Inr (JStr ''abc'')"
    by (simp add: obj_prop_def)
  show ?thesis
    using handshake_key_check [OF refl l refl i1 g1] handshake_key_check [OF refl l refl i2 g2]
      l i1 g1 i2
    by simp
qed

text \<open>
  Claim C5 fails on the one JSON value whose \<^verbatim>\<open>key\<close> property cannot be read.  The
  client sends \<^verbatim>\<open>null\<close> and a line feed to the server whose key is \<^verbatim>\<open>abc\<close>: the
  framing completes the handshake with the value null, the callback clears the
  timer, and \<^verbatim>\<open>options.key\<close> throws a \<^verbatim>\<open>TypeError\<close> (line 120) before the key is
  compared.  The handshake holds no key equal to the server's, yet no banner is
  written and the socket is not ended, then or when the deadline passes, the
  timer being cleared.
\<close>

theorem null_handshake_not_rejected:
  "invocations (step sample_runtime ''abc'' (Sock (Data ''null\<newline>'')) onConnection)
     = [(JNull, JNull)]
   \<and> get_prop JNull ''key'' = Inl TypeError
   \<and> thrown (host (step sample_runtime ''abc'' (Sock (Data ''null\<newline>'')) onConnection))
     = Some TypeError
   \<and> sent (host (step sample_runtime ''abc'' (Sock (Data ''null\<newline>'')) onConnection)) = []
   \<and> timeout (host (step sample_runtime ''abc'' (Sock (Data ''null\<newline>'')) onConnection))
     = Cleared
   \<and> sent (host (run sample_runtime ''abc'' [Sock (Data ''null\<newline>''), TimerFires] onConnection))
     = []"
  by (simp add: run_def onConnection_def readJSONFromStream_def onData_def nl_def
      sample_runtime_def sample_parse_def finish_def onHandshake_def)

text \<open>
  Claim C10.  When \<^verbatim>\<open>JSON.parse("null")\<close> is null and the first data event of a
  connection is \<^verbatim>\<open>null\<close>, a line feed and anything after it, the framing calls the
  callback with no error and the value null; \<^verbatim>\<open>onConnection\<close> clears the timer and
  throws a \<^verbatim>\<open>TypeError\<close> at \<^verbatim>\<open>options.key\<close>.  The connection is not rejected and no
  session starts: whatever happens later, nothing is ever written on the socket
  (no exit banner, also not by the timer, which is cleared), no REPL is started
  and no evaluation is requested.
\<close>

theorem null_handshake_throws:
  assumes "JSON_parse rt ''null'' = Parsed JNull"
    and "s' = step rt key (Sock (Data (''null'' @ nl # rest))) onConnection"
  shows "invocations s' = [(JNull, JNull)]
       \<and> thrown (host s') = Some TypeError
       \<and> timeout (host s') = Cleared
       \<and> piped s' \<and> outputStream s' = rest
       \<and> (\<forall>later. sent (host (run rt key later s')) = []
                  \<and> repl_started (host (run rt key later s')) = None
                  \<and> evaluations (host (run rt key later s')) = [])"
proof -
  have sp: "split_nl (''null'' @ nl # rest) = ''null'' # split_nl rest"
    by (simp only: split_nl_append) (simp add: nl_def)
  have e: "step rt key (Sock (Data buffer)) onConnection
             = onData rt (onHandshake key) buffer onConnection" for buffer
    by (simp add: onConnection_def readJSONFromStream_def)
  have "s' = onData_loop rt (onHandshake key) (''null'' # split_nl rest) onConnection"
    by (simp only: assms(2) e onData_def sp)
  then have s': "s' = onConnection\<lparr> dataSoFar := ''null'', finished := True, on_data := False,
      on_error := False, on_close := False, piped := True, outputStream := rest,
      invocations := [(JNull, JNull)], detachments := 1,
      host := (host onConnection)\<lparr> timeout := Cleared, thrown := Some TypeError \<rparr> \<rparr>"
    by (simp add: onConnection_def readJSONFromStream_def assms(1) finish_def
        onHandshake_def split_nl_nonempty join_split_nl)
  have inv: "conn_inv s'"
    unfolding assms(2) by (intro step_inv onConnection_inv)
  have f: "finished s'" and i: "\<not> interactive (host s')" and e: "evaluations (host s') = []"
    and r: "repl_started (host s') = None" and se: "sent (host s') = []"
    unfolding s' by (simp_all add: host_onConnection)
  have "\<forall>later. sent (host (run rt key later s')) = []
                  \<and> repl_started (host (run rt key later s')) = None
                  \<and> evaluations (host (run rt key later s')) = []"
    using rejected_forever [OF inv f i e] r se by simp
  moreover have "invocations s' = [(JNull, JNull)] \<and> thrown (host s') = Some TypeError
       \<and> timeout (host s') = Cleared \<and> piped s' \<and> outputStream s' = rest"
    unfolding s' by (simp add: host_onConnection)
  ultimately show ?thesis by simp
qed

theorem null_handshake_throws_witness:
  "JSON_parse sample_runtime ''null'' = Parsed JNull
   \<and> thrown (host (step sample_runtime ''abc'' (Sock (Data (''null'' @ nl # ''.exit''))) onConnection))
       = Some TypeError
   \<and> sent (host (run sample_runtime ''abc'' [TimerFires, ReplExit]
       (step sample_runtime ''abc'' (Sock (Data (''null'' @ nl # ''.exit''))) onConnection))) = []"
proof -
  have p: "JSON_parse sample_runtime ''null'' = Parsed JNull"
    by (simp add: sample_runtime_def sample_parse_def)
  show ?thesis
    using null_handshake_throws [OF p refl, of "''abc''" "''.exit''"] p by simp
qed


section \<open>The state after an accepted handshake\<close>

lemma onHandshake_object:
  assumes "obj_prop kvs ''key'' = JStr key"
  shows "onHandshake key JNull (JObj kvs) c = accept kvs (c\<lparr> timeout := Cleared \<rparr>)"
  using assms by (simp add: onHandshake_def)

lemma accepted_state:
  assumes "s = run rt key evs onConnection" and "on_data s"
    and "s' = step rt key (Sock (Data chunk)) s"
    and "invocations s' = [(JNull, JObj kvs)]"
    and "obj_prop kvs ''key'' = JStr key"
  shows "host s' = accept kvs ((host onConnection)\<lparr> timeout := Cleared \<rparr>)"
    and "conn_inv s'" and "finished s'"
proof -
  have inv: "conn_inv s"
    unfolding assms(1) by (rule reachable_inv)
  show "conn_inv s'"
    unfolding assms(3) using inv by (rule step_inv)
  have i: "invocations (step rt key (Sock (Data chunk)) s) = [(JNull, JObj kvs)]"
    using assms(3,4) by simp
  show "finished s'"
    unfolding assms(3) using handshake_completes(2) [OF inv assms(2) i] .
  show "host s' = accept kvs ((host onConnection)\<lparr> timeout := Cleared \<rparr>)"
    unfolding assms(3) using handshake_completes(1) [OF inv assms(2) i]
    by (simp only: onHandshake_object [OF assms(5)])
qed


section \<open>The options of the session\<close>

lemma settled_step_session:
  "session (settled_step rt ev c) = session c
   \<or> session (settled_step rt ev c) = map_option (AList.update ''output'' JNull) (session c)"
proof (cases ev)
  case (Sock sev)
  then show ?thesis by (cases sev) simp_all
next
  case TimerFires
  then show ?thesis by simp
next
  case (EvalCompletes e r)
  then show ?thesis by (simp add: onEvalResult_def Let_def)
next
  case ReplExit
  then show ?thesis by (simp add: onReplExit_def split: option.splits)
next
  case ProcessExit
  then show ?thesis by (simp add: onProcessExit_def split: option.splits)
qed

lemma settled_run_session:
  assumes "\<And>options. Q options \<Longrightarrow> Q (AList.update ''output'' JNull options)"
    and "\<And>options. session c = Some options \<Longrightarrow> Q options"
    and "session (settled_run rt evs c) = Some options"
  shows "Q options"
  using assms(2,3)
proof (induction evs arbitrary: c)
  case Nil
  then show ?case by (simp add: settled_run_Nil)
next
  case (Cons ev evs)
  have "Q o'" if st: "session (settled_step rt ev c) = Some o'" for o'
    using settled_step_session [of rt ev c]
  proof
    assume "session (settled_step rt ev c) = session c"
    then show ?thesis using st Cons.prems(1) by simp
  next
    assume "session (settled_step rt ev c) = map_option (AList.update ''output'' JNull) (session c)"
    then obtain o0 where "session c = Some o0" and "o' = AList.update ''output'' JNull o0"
      using st by (cases "session c") auto
    then show ?thesis using Cons.prems(1) assms(1) by simp
  qed
  then show ?case
    using Cons.IH [of "settled_step rt ev c"] Cons.prems(2) by (simp add: settled_run_Cons)
qed

lemma sample_columns:
  \<open>step sample_runtime ''abc''
       (Sock (Data ''{"key":"abc","columns":80,"terminal":false}\<newline>''))
       (run sample_runtime ''abc'' [] onConnection)
     = \<lparr> dataSoFar = ''{"key":"abc","columns":80,"terminal":false}'', finished = True,
         on_data = False, on_error = False, on_close = False, piped = True, outputStream = [],
         invocations = [(JNull, JObj [(''key'', JStr ''abc''), (''columns'', JNum 80),
                           (''terminal'', JBool False)])],
         detachments = 1,
         host = \<lparr> socket = True, timeout = Cleared, sent = [],
                  socket_columns = Some (JNum 80), logged = [], thrown = None,
                  repl_started = Some [(''terminal'', JBool False),
                    (''input'', JStream), (''useGlobal'', JBool False),
                    (''output'', JSocket), (''prompt'', JStr ''> ''),
                    (''useColors'', JBool True), (''ignoreUndefined'', JBool True)],
                  session = Some [(''terminal'', JBool False),
                    (''input'', JStream), (''useGlobal'', JBool False),
                    (''output'', JSocket), (''prompt'', JStr ''> ''),
                    (''useColors'', JBool True), (''ignoreUndefined'', JBool True)],
                  evaluations = [], interactive = True \<rparr> \<rparr>\<close>
  by (simp add: run_def onConnection_def readJSONFromStream_def onData_def nl_def
      sample_runtime_def sample_parse_def finish_def onHandshake_def accept_def negotiate_def
      startREPL_def enableInteractiveMode_def obj_prop_def Let_def)

text \<open>
  Claim C7.  Take any connection on which the framing still listens and a data
  event that completes the handshake with an object \<open>kvs\<close> whose \<^verbatim>\<open>key\<close> is the
  server's.  The options after lines 126 to 147, \<open>negotiate JStream JSocket kvs\<close>,
  have no \<^verbatim>\<open>key\<close> and no \<^verbatim>\<open>columns\<close>; their \<^verbatim>\<open>input\<close> is the pass-through stream,
  their \<^verbatim>\<open>output\<close> the socket and their \<^verbatim>\<open>useGlobal\<close> false, whatever the client
  sent for them; and each of \<^verbatim>\<open>prompt\<close>, \<^verbatim>\<open>terminal\<close>, \<^verbatim>\<open>useColors\<close>,
  \<^verbatim>\<open>ignoreUndefined\<close> is the client's value, or \<^verbatim>\<open>"> "\<close>, true, true, true when the
  client left it unset.  The REPL is started with exactly these options (with the
  prompt \<^verbatim>\<open>""\<close> in one-shot mode), and whatever happens later neither the options
  the REPL was started with nor the options object of the session has a \<^verbatim>\<open>key\<close> or
  a \<^verbatim>\<open>columns\<close> property.
\<close>

theorem negotiated_options:
  assumes "s = run rt key evs onConnection" and "on_data s"
    and "s' = step rt key (Sock (Data chunk)) s"
    and "invocations s' = [(JNull, JObj kvs)]"
    and "obj_prop kvs ''key'' = JStr key"
  shows "repl_started (host s')
           = Some (if truthy (obj_prop kvs ''evaluateAndExit'')
                   then AList.update ''prompt'' (JStr []) (negotiate JStream JSocket kvs)
                   else negotiate JStream JSocket kvs)
       \<and> map_of (negotiate JStream JSocket kvs) ''key'' = None
       \<and> map_of (negotiate JStream JSocket kvs) ''columns'' = None
       \<and> obj_prop (negotiate JStream JSocket kvs) ''input'' = JStream
       \<and> obj_prop (negotiate JStream JSocket kvs) ''output'' = JSocket
       \<and> obj_prop (negotiate JStream JSocket kvs) ''useGlobal'' = JBool False
       \<and> obj_prop (negotiate JStream JSocket kvs) ''prompt''
           = (if obj_prop kvs ''prompt'' = JUndefined then JStr ''> '' else obj_prop kvs ''prompt'')
       \<and> obj_prop (negotiate JStream JSocket kvs) ''terminal''
           = (if obj_prop kvs ''terminal'' = JUndefined then JBool True
              else obj_prop kvs ''terminal'')
       \<and> obj_prop (negotiate JStream JSocket kvs) ''useColors''
           = (if obj_prop kvs ''useColors'' = JUndefined then JBool True
              else obj_prop kvs ''useColors'')
       \<and> obj_prop (negotiate JStream JSocket kvs) ''ignoreUndefined''
           = (if obj_prop kvs ''ignoreUndefined'' = JUndefined then JBool True
              else obj_prop kvs ''ignoreUndefined'')
       \<and> (\<forall>later options.
             repl_started (host (run rt key later s')) = Some options
             \<or> session (host (run rt key later s')) = Some options \<longrightarrow>
             map_of options ''key'' = None \<and> map_of options ''columns'' = None)"
proof -
  let ?n = "negotiate JStream JSocket kvs"
  let ?o = "if truthy (obj_prop kvs ''evaluateAndExit'')
            then AList.update ''prompt'' (JStr []) ?n else ?n"
  note a = accepted_state [OF assms(1-5)]
  have sc: "socket ((host onConnection)\<lparr> timeout := Cleared \<rparr>)"
    by (simp add: host_onConnection)
  let ?ses = "if truthy (obj_prop kvs ''evaluateAndExit'')
              then AList.update ''prompt'' (JStr []) ?n
              else AList.delete ''evaluateAndExit'' ?n"
  have both: "repl_started (host s') = Some ?o \<and> session (host s') = Some ?ses"
  proof (cases "truthy (obj_prop kvs ''evaluateAndExit'')")
    case True
    obtain command where c: "get_prop (obj_prop kvs ''evaluateAndExit'') ''command'' = Inr command"
      using truthy_get_prop [OF True] by blast
    obtain filename where fn: "get_prop (obj_prop kvs ''evaluateAndExit'') ''filename'' = Inr filename"
      using truthy_get_prop [OF True] by blast
    show ?thesis
      unfolding a(1) accept_oneshot [OF sc True c fn] using True by simp
  next
    case False
    show ?thesis
      unfolding a(1) accept_interactive [OF sc False] using False by simp
  qed
  then have rs: "repl_started (host s') = Some ?o" and ss: "session (host s') = Some ?ses"
    by simp_all
  let ?Q = "\<lambda>options. map_of options ''key'' = None \<and> map_of options ''columns'' = None"
  have Qn: "?Q ?n" by (simp add: negotiate_key negotiate_columns)
  have Qo: "?Q ?o" using Qn by (simp add: update_conv')
  have Qs: "?Q options" if "session (host s') = Some options" for options
    using that ss Qn by (auto simp: update_conv' delete_conv' split: if_splits)
  have Qu: "?Q (AList.update ''output'' JNull options)" if "?Q options" for options
    using that by (simp add: update_conv')
  have run: "host (run rt key later s') = settled_run rt later (host s')" for later
    using a(2,3) by (rule run_settled)
  have never: "\<forall>later options.
             repl_started (host (run rt key later s')) = Some options
             \<or> session (host (run rt key later s')) = Some options \<longrightarrow>
             map_of options ''key'' = None \<and> map_of options ''columns'' = None"
  proof (intro allI impI)
    fix later options
    assume "repl_started (host (run rt key later s')) = Some options
             \<or> session (host (run rt key later s')) = Some options"
    then show "map_of options ''key'' = None \<and> map_of options ''columns'' = None"
    proof
      assume "repl_started (host (run rt key later s')) = Some options"
      then have "options = ?o"
        using rs by (simp add: run settled_run_fixed)
      then show ?thesis using Qo by simp
    next
      assume "session (host (run rt key later s')) = Some options"
      then have "session (settled_run rt later (host s')) = Some options"
        by (simp add: run)
      from settled_run_session [of ?Q, OF Qu Qs this] show ?thesis .
    qed
  qed
  show ?thesis
    using rs never
    by (simp only: negotiate_key negotiate_columns negotiate_host_fields negotiate_defaults)
qed


theorem negotiated_options_witness:
  \<open>on_data (run sample_runtime ''abc'' [] onConnection)
   \<and> invocations (step sample_runtime ''abc''
        (Sock (Data ''{"key":"abc","columns":80,"terminal":false}\<newline>''))
        (run sample_runtime ''abc'' [] onConnection))
      = [(JNull, JObj [(''key'', JStr ''abc''), (''columns'', JNum 80),
                       (''terminal'', JBool False)])]
   \<and> repl_started (host (step sample_runtime ''abc''
        (Sock (Data ''{"key":"abc","columns":80,"terminal":false}\<newline>''))
        (run sample_runtime ''abc'' [] onConnection)))
      = Some (negotiate JStream JSocket
                [(''key'', JStr ''abc''), (''columns'', JNum 80), (''terminal'', JBool False)])
   \<and> negotiate JStream JSocket
         [(''key'', JStr ''abc''), (''columns'', JNum 80), (''terminal'', JBool False)]
      = [(''terminal'', JBool False), (''input'', JStream), (''useGlobal'', JBool False),
         (''output'', JSocket), (''prompt'', JStr ''> ''), (''useColors'', JBool True),
         (''ignoreUndefined'', JBool True)]
   \<and> map_of (negotiate JStream JSocket
         [(''key'', JStr ''abc''), (''columns'', JNum 80), (''terminal'', JBool False)]) ''key''
      = None\<close>
proof -
  let ?kvs = "[(''key'', JStr ''abc''), (''columns'', JNum 80), (''terminal'', JBool False)]"
  have l: "on_data (run sample_runtime ''abc'' [] onConnection)"
    by (simp add: run_def onConnection_def readJSONFromStream_def)
  have i: \<open>invocations (step sample_runtime ''abc''
        (Sock (Data ''{"key":"abc","columns":80,"terminal":false}\<newline>''))
        (run sample_runtime ''abc'' [] onConnection)) = [(JNull, JObj ?kvs)]\<close>
    by (simp only: sample_columns) simp
  have k: "obj_prop ?kvs ''key'' = JStr ''abc''"
    by (simp add: obj_prop_def)
  have t: "\<not> truthy (obj_prop ?kvs ''evaluateAndExit'')"
    by (simp add: obj_prop_def)
  have n: "negotiate JStream JSocket ?kvs
      = [(''terminal'', JBool False), (''input'', JStream), (''useGlobal'', JBool False),
         (''output'', JSocket), (''prompt'', JStr ''> ''), (''useColors'', JBool True),
         (''ignoreUndefined'', JBool True)]"
    by (simp add: negotiate_def obj_prop_def)
  note th = negotiated_options [OF refl l refl i k]
  have r: \<open>repl_started (host (step sample_runtime ''abc''
        (Sock (Data ''{"key":"abc","columns":80,"terminal":false}\<newline>''))
        (run sample_runtime ''abc'' [] onConnection)))
      = Some (negotiate JStream JSocket ?kvs)\<close>
    using th [THEN conjunct1] t by simp
  have never: "map_of (negotiate JStream JSocket ?kvs) ''key'' = None"
    using th by blast
  show ?thesis
    using l i r n never by (intro conjI)
qed

text \<open>
  Claim C9.  In interactive mode, while the output of the session is still open
  (\<^verbatim>\<open>options.output\<close> is not null), the "exit" event of the REPL makes the server
  write the line \<^verbatim>\<open>Shell exiting...\<close> and then end the output; the "exit" event of
  the process makes it end the output and write nothing.
\<close>

theorem exit_banner_on_repl_exit:
  assumes "interactive (host s)" and "session (host s) = Some options"
    and "truthy (obj_prop options ''output'')"
  shows "sent (host (step rt key ReplExit s))
           = sent (host s) @ [SockWrite ''Shell exiting...\<newline>'', SockEnd]
       \<and> sent (host (step rt key ProcessExit s)) = sent (host s) @ [SockEnd]"
  using assms by (simp add: onReplExit_def onProcessExit_def EXITING_MESSAGE_def nl_def)

theorem exit_banner_on_repl_exit_witness:
  \<open>interactive (host (run sample_runtime ''abc'' [Sock (Data ''{"key":"abc"}\<newline>'')] onConnection))
   \<and> sent (host (step sample_runtime ''abc'' ReplExit
        (run sample_runtime ''abc'' [Sock (Data ''{"key":"abc"}\<newline>'')] onConnection)))
      = [SockWrite ''Shell exiting...\<newline>'', SockEnd]
   \<and> sent (host (step sample_runtime ''abc'' ProcessExit
        (run sample_runtime ''abc'' [Sock (Data ''{"key":"abc"}\<newline>'')] onConnection)))
      = [SockEnd]\<close>
proof -
  let ?s = \<open>run sample_runtime ''abc'' [Sock (Data ''{"key":"abc"}\<newline>'')] onConnection\<close>
  let ?o = "[(''input'', JStream), (''useGlobal'', JBool False),
                    (''output'', JSocket), (''prompt'', JStr ''> ''), (''terminal'', JBool True),
                    (''useColors'', JBool True), (''ignoreUndefined'', JBool True)]"
  have s: \<open>?s = step sample_runtime ''abc'' (Sock (Data ''{"key":"abc"}\<newline>''))
                   (run sample_runtime ''abc'' [] onConnection)\<close>
    by (simp only: run_Cons run_Nil)
  have i: "interactive (host ?s)" and se: "session (host ?s) = Some ?o" and e: "sent (host ?s) = []"
    by (simp_all only: s sample_accept) simp_all
  have t: "truthy (obj_prop ?o ''output'')"
    by (simp add: obj_prop_def)
  show ?thesis
    using exit_banner_on_repl_exit [OF i se t, of sample_runtime "''abc''"] i e by simp
qed


section \<open>The handshake deadline\<close>

lemma onHandshake_failed:
  "onHandshake key e JUndefined c =
     (if truthy e then c\<lparr> timeout := Cleared, socket := False, logged := logged c @ [e] \<rparr>
      else c\<lparr> timeout := Cleared, thrown := Some TypeError \<rparr>)"
  by (simp add: onHandshake_def)

lemma timed_out_step:
  assumes "timed_out s"
  shows "lapsed (step rt key ev s)"
    and "ev = Sock StreamClose \<Longrightarrow> finished (step rt key ev s)"
proof -
  obtain d where s: "s = onConnection\<lparr> dataSoFar := d, on_data := False,
           host := (host onConnection)\<lparr> timeout := Fired,
                     sent := socket_end (EXITING_MESSAGE @ [nl]) \<rparr> \<rparr>"
    using assms by (auto simp: timed_out_iff)
  have same: "lapsed s"
    using assms timed_out_facts(4) [OF assms] unfinished_facts(7-9) [of s]
    by (simp add: lapsed_def)
  have "lapsed (step rt key ev s) \<and> (ev = Sock StreamClose \<longrightarrow> finished (step rt key ev s))"
  proof (cases ev)
    case (Sock sev)
    show ?thesis
    proof (cases sev)
      case (Data b)
      have "step rt key ev s = s"
        unfolding Sock Data s by (simp add: onConnection_def readJSONFromStream_def)
      then show ?thesis using same Sock Data by simp
    next
      case (StreamError e)
      show ?thesis
        unfolding Sock StreamError s
        by (simp add: onConnection_def readJSONFromStream_def finish_def onHandshake_failed
            lapsed_def)
    next
      case StreamClose
      show ?thesis
        unfolding Sock StreamClose s
        by (simp add: onConnection_def readJSONFromStream_def finish_def onClose_def
            onHandshake_failed lapsed_def Let_def)
    qed
  next
    case TimerFires
    have "step rt key ev s = s"
      unfolding TimerFires s by (simp add: onConnection_def readJSONFromStream_def)
    then show ?thesis using same TimerFires by simp
  next
    case (EvalCompletes e r)
    have "step rt key ev s = s"
      unfolding EvalCompletes s by (simp add: onConnection_def readJSONFromStream_def)
    then show ?thesis using same EvalCompletes by simp
  next
    case ReplExit
    have "step rt key ev s = s"
      unfolding ReplExit s by (simp add: onConnection_def readJSONFromStream_def)
    then show ?thesis using same ReplExit by simp
  next
    case ProcessExit
    have "step rt key ev s = s"
      unfolding ProcessExit s by (simp add: onConnection_def readJSONFromStream_def)
    then show ?thesis using same ProcessExit by simp
  qed
  then show "lapsed (step rt key ev s)"
    and "ev = Sock StreamClose \<Longrightarrow> finished (step rt key ev s)"
    by simp_all
qed

lemma lapsed_step:
  assumes "conn_inv s" and "lapsed s"
  shows "lapsed (step rt key ev s)"
    and "finished s \<or> ev = Sock StreamClose \<Longrightarrow> finished (step rt key ev s)"
proof -
  have "lapsed (step rt key ev s)
      \<and> (finished s \<or> ev = Sock StreamClose \<longrightarrow> finished (step rt key ev s))"
  proof (cases "finished s")
    case True
    have h: "host (step rt key ev s) = settled_step rt ev (host s)"
      using assms(1) True by (rule step_settled)
    have f: "finished (step rt key ev s)"
      using assms(1) True by (simp add: conn_inv_def step_finished)
    have ni: "\<not> interactive (host s)" and e: "evaluations (host s) = [] \<or> \<not> is_completion ev"
      using assms(2) by (simp_all add: lapsed_def)
    have "sent (host (step rt key ev s)) = sent (host s)"
      unfolding h using ni e by (rule settled_step_sent_quiet)
    then show ?thesis
      using assms(2) f by (simp add: lapsed_def h settled_step_fixed)
  next
    case False
    then have "timed_out s" using assms(2) by (simp add: lapsed_def)
    from timed_out_step [OF this, where rt = rt and key = key and ev = ev] show ?thesis
      using False by simp
  qed
  then show "lapsed (step rt key ev s)"
    and "finished s \<or> ev = Sock StreamClose \<Longrightarrow> finished (step rt key ev s)"
    by simp_all
qed

lemma lapsed_run:
  assumes "conn_inv s" and "lapsed s"
  shows "lapsed (run rt key evs s)
       \<and> (finished s \<or> Sock StreamClose \<in> set evs \<longrightarrow> finished (run rt key evs s))"
  using assms
proof (induction evs arbitrary: s)
  case Nil
  then show ?case by (simp add: run_Nil)
next
  case (Cons ev evs)
  have 1: "conn_inv (step rt key ev s)"
    using Cons.prems(1) by (rule step_inv)
  have 2: "lapsed (step rt key ev s)"
    using Cons.prems by (rule lapsed_step)
  have 3: "finished s \<or> ev = Sock StreamClose \<Longrightarrow> finished (step rt key ev s)"
    using lapsed_step(2) [OF Cons.prems] .
  from Cons.IH [OF 1 2] 3 show ?case
    by (auto simp: run_Cons)
qed

lemma timed_out_until:
  assumes "timed_out s"
  shows "(ends_framing ev \<longrightarrow> finished (step rt key ev s))
       \<and> (\<not> ends_framing ev \<longrightarrow> step rt key ev s = s)"
proof -
  obtain d where s: "s = onConnection\<lparr> dataSoFar := d, on_data := False,
           host := (host onConnection)\<lparr> timeout := Fired,
                     sent := socket_end (EXITING_MESSAGE @ [nl]) \<rparr> \<rparr>"
    using assms by (auto simp: timed_out_iff)
  show ?thesis
  proof (cases ev)
    case (Sock sev)
    show ?thesis
    proof (cases sev)
      case (Data b)
      show ?thesis
        unfolding Sock Data s
        by (simp add: onConnection_def readJSONFromStream_def ends_framing_def)
    next
      case (StreamError e)
      show ?thesis
        unfolding Sock StreamError s
        by (simp add: onConnection_def readJSONFromStream_def finish_def ends_framing_def)
    next
      case StreamClose
      show ?thesis
        unfolding Sock StreamClose s
        by (simp add: onConnection_def readJSONFromStream_def finish_def onClose_def
            ends_framing_def Let_def)
    qed
  next
    case TimerFires
    show ?thesis
      unfolding TimerFires s
      by (simp add: onConnection_def readJSONFromStream_def ends_framing_def)
  next
    case (EvalCompletes e r)
    show ?thesis
      unfolding EvalCompletes s
      by (simp add: onConnection_def readJSONFromStream_def ends_framing_def)
  next
    case ReplExit
    show ?thesis
      unfolding ReplExit s
      by (simp add: onConnection_def readJSONFromStream_def ends_framing_def)
  next
    case ProcessExit
    show ?thesis
      unfolding ProcessExit s
      by (simp add: onConnection_def readJSONFromStream_def ends_framing_def)
  qed
qed

lemma timed_out_run:
  assumes "conn_inv s" and "timed_out s"
  shows "(list_ex ends_framing evs \<longrightarrow> finished (run rt key evs s))
       \<and> (\<not> list_ex ends_framing evs \<longrightarrow> run rt key evs s = s)"
  using assms
proof (induction evs arbitrary: s)
  case Nil
  show ?case by (simp add: run_Nil)
next
  case (Cons ev evs)
  show ?case
  proof (cases "ends_framing ev")
    case True
    then have f: "finished (step rt key ev s)"
      using timed_out_until [OF Cons.prems(2), of ev rt key] by simp
    have i: "conn_inv (step rt key ev s)"
      using Cons.prems(1) by (rule step_inv)
    have "finished (run rt key evs (step rt key ev s))"
      using i f by (rule run_finished)
    then show ?thesis
      using True by (simp add: run_Cons)
  next
    case False
    then have "step rt key ev s = s"
      using timed_out_until [OF Cons.prems(2), of ev rt key] by simp
    then show ?thesis
      using False Cons.IH [OF Cons.prems] by (simp add: run_Cons)
  qed
qed

text \<open>
  Claim C4, as amended.  Take any connection, after any events, whose timer is
  still armed (so no handshake value, stream error or close has ended the
  framing), and let the timer fire.  It was armed for 1000 ms; the server writes
  \<^verbatim>\<open>Shell exiting...\<close> and a line feed and ends the socket; the timer is spent; the
  data listeners are removed, so that whatever happens later no handshake
  completes, no REPL is started, no evaluation is requested and nothing more is
  written.  The framing's "error" and "close" listeners stay attached as long as
  the socket emits neither "error" nor "close"; the first of these two events
  calls \<^verbatim>\<open>finish\<close>, which detaches them, once.
\<close>

theorem handshake_timeout:
  assumes "s = run rt key evs onConnection" and "timeout (host s) = Armed ms"
    and "s' = step rt key TimerFires s"
  shows "ms = 1000
       \<and> sent (host s') = [SockWrite ''Shell exiting...\<newline>'', SockEnd]
       \<and> timeout (host s') = Fired
       \<and> \<not> on_data s' \<and> \<not> piped s' \<and> on_error s' \<and> on_close s'
       \<and> (\<forall>later.
             sent (host (run rt key later s')) = [SockWrite ''Shell exiting...\<newline>'', SockEnd]
           \<and> repl_started (host (run rt key later s')) = None
           \<and> evaluations (host (run rt key later s')) = []
           \<and> \<not> on_data (run rt key later s'))
       \<and> (\<forall>later. \<not> list_ex ends_framing later \<longrightarrow>
             on_error (run rt key later s') \<and> on_close (run rt key later s'))
       \<and> (\<forall>later. list_ex ends_framing later \<longrightarrow>
             \<not> on_data (run rt key later s') \<and> \<not> on_error (run rt key later s')
           \<and> \<not> on_close (run rt key later s') \<and> detachments (run rt key later s') = 1)"
proof -
  have inv: "conn_inv s"
    unfolding assms(1) by (rule reachable_inv)
  have "\<not> finished s"
    using inv assms(2) by (auto simp: conn_inv_def)
  then have "pristine s \<or> timed_out s"
    using inv by (simp add: conn_inv_def)
  then have p: "pristine s"
    using assms(2) timed_out_facts(2) by fastforce
  have ms: "ms = 1000"
    using pristine_facts(2) [OF p] assms(2) by simp
  have t: "timed_out s'"
    unfolding assms(3) using p by (rule step_TimerFires_pristine)
  have inv': "conn_inv s'"
    unfolding assms(3) using inv by (rule step_inv)
  have now: "sent (host s') = [SockWrite ''Shell exiting...\<newline>'', SockEnd]
       \<and> timeout (host s') = Fired
       \<and> \<not> on_data s' \<and> \<not> piped s' \<and> on_error s' \<and> on_close s'"
    using timed_out_facts [OF t] unfinished_facts(2-4) [of s'] t by (simp add: banner)
  have l: "lapsed s'"
    using t timed_out_facts(4) [OF t] unfinished_facts(7-9) [of s'] by (simp add: lapsed_def)
  have later: "lapsed (run rt key later s')
       \<and> (finished s' \<or> Sock StreamClose \<in> set later \<longrightarrow> finished (run rt key later s'))"
    for later
    using inv' l by (rule lapsed_run)
  have inv'': "conn_inv (run rt key later s')" for later
    using inv' by (rule run_inv)
  have nd: "\<not> on_data (run rt key later s')" for later
  proof (cases "finished (run rt key later s')")
    case True
    then show ?thesis
      using inv'' [of later] by (simp add: conn_inv_def reader_inv_def)
  next
    case False
    then have "timed_out (run rt key later s')"
      using later [of later] by (simp add: lapsed_def)
    then show ?thesis by (rule timed_out_facts(1))
  qed
  have 1: "\<forall>later.
             sent (host (run rt key later s')) = [SockWrite ''Shell exiting...\<newline>'', SockEnd]
           \<and> repl_started (host (run rt key later s')) = None
           \<and> evaluations (host (run rt key later s')) = []
           \<and> \<not> on_data (run rt key later s')"
    using later nd by (simp add: lapsed_def banner)
  note u = timed_out_run [OF inv' t]
  have 2: "\<forall>later. \<not> list_ex ends_framing later \<longrightarrow>
             on_error (run rt key later s') \<and> on_close (run rt key later s')"
  proof (intro allI impI)
    fix later
    assume "\<not> list_ex ends_framing later"
    then have "run rt key later s' = s'"
      using u [of later rt key] by simp
    then show "on_error (run rt key later s') \<and> on_close (run rt key later s')"
      using now by simp
  qed
  have 3: "\<forall>later. list_ex ends_framing later \<longrightarrow>
             \<not> on_data (run rt key later s') \<and> \<not> on_error (run rt key later s')
           \<and> \<not> on_close (run rt key later s') \<and> detachments (run rt key later s') = 1"
  proof (intro allI impI)
    fix later
    assume "list_ex ends_framing later"
    then have "finished (run rt key later s')"
      using u [of later rt key] by simp
    then show "\<not> on_data (run rt key later s') \<and> \<not> on_error (run rt key later s')
           \<and> \<not> on_close (run rt key later s') \<and> detachments (run rt key later s') = 1"
      using inv'' [of later] by (simp add: conn_inv_def reader_inv_def)
  qed
  show ?thesis
    using ms now 1 2 3 by blast
qed

theorem handshake_timeout_witness:
  \<open>timeout (host (run sample_runtime ''abc'' [Sock (Data ''{"ke'')] onConnection)) = Armed 1000
   \<and> sent (host (step sample_runtime ''abc'' TimerFires
        (run sample_runtime ''abc'' [Sock (Data ''{"ke'')] onConnection)))
      = [SockWrite ''Shell exiting...\<newline>'', SockEnd]
   \<and> \<not> list_ex ends_framing [Sock (Data ''y":"abc"}\<newline>''), ReplExit]
   \<and> on_close (run sample_runtime ''abc'' [Sock (Data ''y":"abc"}\<newline>''), ReplExit]
        (step sample_runtime ''abc'' TimerFires
          (run sample_runtime ''abc'' [Sock (Data ''{"ke'')] onConnection)))
   \<and> list_ex ends_framing [Sock (Data ''y":"abc"}\<newline>''), Sock (StreamError (JError ''reset''))]
   \<and> \<not> on_close (run sample_runtime ''abc''
        [Sock (Data ''y":"abc"}\<newline>''), Sock (StreamError (JError ''reset''))]
        (step sample_runtime ''abc'' TimerFires
          (run sample_runtime ''abc'' [Sock (Data ''{"ke'')] onConnection)))
   \<and> repl_started (host (run sample_runtime ''abc''
        [Sock (Data ''y":"abc"}\<newline>''), Sock (StreamError (JError ''reset''))]
        (step sample_runtime ''abc'' TimerFires
          (run sample_runtime ''abc'' [Sock (Data ''{"ke'')] onConnection)))) = None\<close>
proof -
  have a: \<open>timeout (host (run sample_runtime ''abc'' [Sock (Data ''{"ke'')] onConnection)) = Armed 1000\<close>
    by (simp add: run_def onConnection_def readJSONFromStream_def onData_def nl_def
        sample_runtime_def sample_parse_def)
  have m: \<open>\<not> list_ex ends_framing [Sock (Data ''y":"abc"}\<newline>''), ReplExit]\<close>
    by (simp add: ends_framing_def)
  have n: \<open>list_ex ends_framing
      [Sock (Data ''y":"abc"}\<newline>''), Sock (StreamError (JError ''reset''))]\<close>
    by (simp add: ends_framing_def)
  note th = handshake_timeout [OF refl a refl]
  show ?thesis
    using th a m n by blast
qed

text \<open>
  Claim C4 as stated fails: on a connection that sends nothing, right after the
  timer's callback has written the banner and ended the socket, \<^verbatim>\<open>finish\<close> and
  \<^verbatim>\<open>onClose\<close> are still listeners of the socket; and on a connection that closed
  before the deadline the timer is cleared and no banner is written.
\<close>

theorem timeout_leaves_listeners:
  "sent (host (step sample_runtime ''abc'' TimerFires onConnection))
     = [SockWrite ''Shell exiting...\<newline>'', SockEnd]
   \<and> on_error (step sample_runtime ''abc'' TimerFires onConnection)
   \<and> on_close (step sample_runtime ''abc'' TimerFires onConnection)
   \<and> sent (host (run sample_runtime ''abc'' [Sock StreamClose, TimerFires] onConnection)) = []"
  by (simp add: run_def onConnection_def readJSONFromStream_def onTimeout_def socket_end_def
      EXITING_MESSAGE_def nl_def finish_def onClose_def onHandshake_def Let_def)


section \<open>Properties of the evaluation pipeline\<close>

lemma begun_append: "begun (xs @ ys) = begun xs @ begun ys"
  by (induction xs rule: begun.induct) simp_all

lemma invoked_append: "invoked (xs @ ys) = invoked xs @ invoked ys"
  by (induction xs rule: invoked.induct) simp_all

lemma drain_begun:
  "begun (trace (drain defaultEval jobs p)) = begun (trace p) @ invoked jobs"
  by (induction defaultEval jobs p rule: drain.induct)
     (simp_all add: begun_append invoked_append split: behaviour.splits)

lemma queued_invoked:
  "invoked (foldl (\<lambda>jobs request. wrappedDefaultEval request jobs) js requests)
     = invoked js @ requests"
  by (induction requests arbitrary: js) (simp_all add: wrappedDefaultEval_def invoked_append)

lemma take_turn_begun:
  "begun (trace (take_turn defaultEval t p)) = begun (trace p) @ submitted [t]"
  by (cases t) (simp_all add: drain_begun queued_invoked begun_append)

lemma submitted_append: "submitted (xs @ ys) = submitted xs @ submitted ys"
  by (induction xs rule: submitted.induct) simp_all

lemma schedule_begun:
  "begun (trace (schedule defaultEval turns p)) = begun (trace p) @ submitted turns"
proof (induction turns arbitrary: p)
  case Nil
  show ?case by (simp add: schedule_def)
next
  case (Cons t turns)
  have "submitted (t # turns) = submitted [t] @ submitted turns"
    using submitted_append [of "[t]" turns] by simp
  then show ?case
    using Cons.IH [of "take_turn defaultEval t p"]
    by (simp add: schedule_def take_turn_begun)
qed

lemma track_append:
  "track running (xs @ ys) = (case track running xs of None \<Rightarrow> None | Some r \<Rightarrow> track r ys)"
  by (induction running xs rule: track.induct) simp_all

lemma only_invokes:
  "\<exists>requests'. foldl (\<lambda>jobs request. wrappedDefaultEval request jobs) (map Invoke js) requests
     = map Invoke requests'"
proof (induction requests arbitrary: js)
  case Nil
  show ?case by auto
next
  case (Cons r requests)
  have "wrappedDefaultEval r (map Invoke js) = map Invoke (js @ [r])"
    by (simp add: wrappedDefaultEval_def)
  then show ?case
    using Cons.IH [of "js @ [r]"] by simp
qed

lemma drain_quiet:
  assumes "\<And>request. defaultEval request = Completes" and "quiet p"
  shows "quiet (drain defaultEval (map Invoke requests) p)"
  using assms(2)
proof (induction requests arbitrary: p)
  case Nil
  then show ?case by simp
next
  case (Cons r requests)
  have "quiet (p\<lparr> trace := trace p @ [Begin r, Done r] \<rparr>)"
    using Cons.prems by (simp add: quiet_def track_append)
  then show ?case
    using Cons.IH assms(1) by simp
qed

lemma take_turn_quiet:
  assumes "\<And>request. defaultEval request = Completes" and "quiet p"
  shows "quiet (take_turn defaultEval t p)"
proof (cases t)
  case (Submit requests)
  obtain rs where "foldl (\<lambda>jobs request. wrappedDefaultEval request jobs) [] requests = map Invoke rs"
    using only_invokes [of "[]" requests] by auto
  then show ?thesis
    using Submit drain_quiet [OF assms] by simp
next
  case (Resume request)
  then show ?thesis using assms(2) by (simp add: quiet_def)
qed

lemma schedule_quiet:
  assumes "\<And>request. defaultEval request = Completes" and "quiet p"
  shows "quiet (schedule defaultEval turns p)"
  using assms(2)
proof (induction turns arbitrary: p)
  case Nil
  then show ?case by (simp add: schedule_def)
next
  case (Cons t turns)
  have "quiet (take_turn defaultEval t p)"
    using assms(1) Cons.prems by (rule take_turn_quiet)
  from Cons.IH [OF this] show ?case
    by (simp add: schedule_def)
qed

text \<open>
  Claim C1, as amended.  For every evaluator and every sequence of turns, from
  any connections, the evaluator is invoked once for each request, in the order
  the requests were submitted.  When every invocation of the evaluator calls its
  completion callback before it returns, no invocation begins before the
  callback of the one before it has fired.
\<close>

theorem evaluations_begin_in_order:
  "begun (trace (schedule defaultEval turns idle)) = submitted turns
   \<and> ((\<forall>request. defaultEval request = Completes) \<longrightarrow>
        serialized (trace (schedule defaultEval turns idle)))"
proof -
  have 1: "begun (trace (schedule defaultEval turns idle)) = submitted turns"
    by (simp add: schedule_begun idle_def)
  have 2: "(\<forall>request. defaultEval request = Completes) \<longrightarrow>
        serialized (trace (schedule defaultEval turns idle))"
  proof
    assume a: "\<forall>request. defaultEval request = Completes"
    have "quiet idle" by (simp add: quiet_def idle_def)
    then have "quiet (schedule defaultEval turns idle)"
      using a by (intro schedule_quiet) simp_all
    then show "serialized (trace (schedule defaultEval turns idle))"
      by (simp add: quiet_def serialized_def)
  qed
  from 1 2 show ?thesis by (rule conjI)
qed

theorem evaluations_begin_in_order_witness:
  "(\<forall>request. (\<lambda>r. Completes) request = Completes)
   \<and> trace (schedule (\<lambda>r. Completes) [Submit [1, 2], Submit [3]] idle)
       = [Begin 1, Done 1, Begin 2, Done 2, Begin 3, Done 3]
   \<and> serialized (trace (schedule (\<lambda>r. Completes) [Submit [1, 2], Submit [3]] idle))
   \<and> begun (trace (schedule (\<lambda>r. Completes) [Submit [1, 2], Submit [3]] idle)) = [1, 2, 3]"
proof -
  have t: "trace (schedule (\<lambda>r. Completes) [Submit [1, 2], Submit [3]] idle)
       = [Begin 1, Done 1, Begin 2, Done 2, Begin 3, Done 3]"
    by (simp add: schedule_def idle_def wrappedDefaultEval_def)
  show ?thesis
    using evaluations_begin_in_order [of "\<lambda>r. Completes" "[Submit [1, 2], Submit [3]]"] t
    by simp
qed

text \<open>
  Claim C1 as stated fails: a first request whose evaluation suspends is
  overtaken.  The second request, submitted in a later turn, has its evaluator
  invoked, and completes, before the completion callback of the first fires:
  \<^verbatim>\<open>then\<close> on the resolved promise does not wait for an earlier evaluation.
\<close>

theorem suspended_evaluation_is_overtaken:
  "trace (schedule (\<lambda>request. if request = 1 then Suspends else Completes)
            [Submit [1], Submit [2], Resume 1] idle)
     = [Begin 1, Begin 2, Done 2, Done 1]
   \<and> \<not> serialized (trace (schedule (\<lambda>request. if request = 1 then Suspends else Completes)
            [Submit [1], Submit [2], Resume 1] idle))"
  by (simp add: schedule_def idle_def wrappedDefaultEval_def serialized_def)

section \<open>One-shot mode\<close>












































end
